theory Spec2Isabelle
  imports
    Complex_Main
    "HOL-Library.AList"
    "HOL-Library.Char_ord"
    "HOL-Library.List_Lexorder"
    "HOL-Library.Product_Lexorder"
begin

section \<open>Shared data: words, keyword arguments, errors, input shape\<close>

text \<open>
  Words are Python strings; they are modelled as byte strings (\<open>string\<close>), compared
  lexicographically byte by byte, which is the order of Python's \<open>sorted\<close> on the
  UTF-8 encoding of the words.
\<close>

definition OOV_TERM :: string where
  "OOV_TERM = ''<unk>''"

text \<open>
  The exceptions the modelled functions can raise: a missing dictionary key, the final
  assertion of \<open>make_transcript_fst\<close> (with the two numbers of its message), and the
  failures of the operating system and of the external graph compiler.
\<close>

datatype error =
    KeyError string
  | AssertionError int int
  | OSError string
  | CalledProcessError int

text \<open>
  The keyword arguments, with the defaults of the source already applied
  (\<open>conservative = False\<close>, \<open>disfluency = False\<close>, \<open>disfluencies = []\<close>).
\<close>

record kwargs =
  conservative :: bool
  disfluency :: bool
  disfluencies :: "string list"

text \<open>
  The argument \<open>word_sequences\<close> is either a flat list of words or a list of lists of
  words. Both builders start with
  \<^verbatim>\<open>if len(word_sequences) == 0 or type(word_sequences[0]) != list: word_sequences = [word_sequences]\<close>.
  The Python value \<open>[]\<close> is both \<open>Flat []\<close> and \<open>Nested []\<close>; the test wraps it
  in either reading.
\<close>

datatype word_sequences = Flat "string list" | Nested "string list list"

fun normalise :: "word_sequences \<Rightarrow> string list list" where
  "normalise (Flat ws) = [ws]"
| "normalise (Nested []) = [[]]"
| "normalise (Nested (s # ss)) = s # ss"

section \<open>The bigram builder: \<open>make_bigram_lm_fst\<close>\<close>

subsection \<open>The dictionary of successor sets\<close>

text \<open>
  \<open>bigrams\<close> is a Python dictionary from a word to the set of its successors: an
  association list in insertion order, with \<open>AList.update\<close> for a store.
\<close>

type_synonym bigrams = "(string \<times> string set) list"

text \<open>\<^verbatim>\<open>bigrams.setdefault(k, set()).add(w)\<close>\<close>

definition setdefault_add :: "string \<Rightarrow> string \<Rightarrow> bigrams \<Rightarrow> bigrams" where
  "setdefault_add k w bg =
     AList.update k (insert w (case map_of bg k of None \<Rightarrow> {} | Some s \<Rightarrow> s)) bg"

text \<open>\<^verbatim>\<open>bigrams[k].add(w)\<close>: raises \<open>KeyError\<close> when \<open>k\<close> is not a key.\<close>

definition getitem_add :: "string \<Rightarrow> string \<Rightarrow> bigrams \<Rightarrow> error + bigrams" where
  "getitem_add k w bg =
     (case map_of bg k of
        None \<Rightarrow> Inl (KeyError k)
      | Some s \<Rightarrow> Inr (AList.update k (insert w s) bg))"

text \<open>\<^verbatim>\<open>bigrams[k].update(ws)\<close>: raises \<open>KeyError\<close> when \<open>k\<close> is not a key.\<close>

definition getitem_update :: "string \<Rightarrow> string list \<Rightarrow> bigrams \<Rightarrow> error + bigrams" where
  "getitem_update k ws bg =
     (case map_of bg k of
        None \<Rightarrow> Inl (KeyError k)
      | Some s \<Rightarrow> Inr (AList.update k (s \<union> set ws) bg))"

text \<open>Sequencing of steps that may raise.\<close>

definition and_then :: "error + 'a \<Rightarrow> ('a \<Rightarrow> error + 'b) \<Rightarrow> error + 'b" where
  "and_then r f = (case r of Inl e \<Rightarrow> Inl e | Inr x \<Rightarrow> f x)"

text \<open>Lines 51 to 53: the disfluencies before the first word of a sequence.\<close>

fun start_disfluencies :: "string list \<Rightarrow> string \<Rightarrow> bigrams \<Rightarrow> error + bigrams" where
  "start_disfluencies [] prev_word bg = Inr bg"
| "start_disfluencies (dis # rest) prev_word bg =
     (case getitem_add dis OOV_TERM (setdefault_add dis prev_word bg) of
        Inl e \<Rightarrow> Inl e
      | Inr bg' \<Rightarrow> start_disfluencies rest prev_word bg')"

text \<open>Lines 64 and 65: every disfluency may be followed by the current word.\<close>

fun inner_disfluencies :: "string list \<Rightarrow> string \<Rightarrow> bigrams \<Rightarrow> error + bigrams" where
  "inner_disfluencies [] word bg = Inr bg"
| "inner_disfluencies (dis # rest) word bg =
     (case getitem_add dis word bg of
        Inl e \<Rightarrow> Inl e
      | Inr bg' \<Rightarrow> inner_disfluencies rest word bg')"

text \<open>Lines 56 to 65: the body of the loop over \<open>word_sequence[1:]\<close>.\<close>

definition pair_step :: "kwargs \<Rightarrow> string \<Rightarrow> string \<Rightarrow> bigrams \<Rightarrow> error + bigrams" where
  "pair_step kw prev_word word bg =
     and_then (Inr (setdefault_add prev_word word bg)) (\<lambda>bg.
     and_then (if conservative kw then getitem_add prev_word OOV_TERM bg else Inr bg) (\<lambda>bg.
     if disfluency kw
     then and_then (getitem_update prev_word (disfluencies kw) bg)
            (inner_disfluencies (disfluencies kw) word)
     else Inr bg))"

text \<open>Lines 55 to 67: the loop; it returns the last \<open>prev_word\<close> with the dictionary.\<close>

fun walk_pairs :: "kwargs \<Rightarrow> string list \<Rightarrow> string \<Rightarrow> bigrams \<Rightarrow> error + (string \<times> bigrams)" where
  "walk_pairs kw [] prev_word bg = Inr (prev_word, bg)"
| "walk_pairs kw (word # rest) prev_word bg =
     (case pair_step kw prev_word word bg of
        Inl e \<Rightarrow> Inl e
      | Inr bg' \<Rightarrow> walk_pairs kw rest word bg')"

text \<open>Lines 42 to 70: the body of the loop over the word sequences.\<close>

definition add_sequence :: "kwargs \<Rightarrow> string list \<Rightarrow> bigrams \<Rightarrow> error + bigrams" where
  "add_sequence kw word_sequence bg =
     (case word_sequence of
        [] \<Rightarrow> Inr bg
      | first # rest \<Rightarrow>
          and_then (getitem_add OOV_TERM first bg) (\<lambda>bg.
          and_then (if disfluency kw
                    then and_then (getitem_update OOV_TERM (disfluencies kw) bg)
                           (start_disfluencies (disfluencies kw) first)
                    else Inr bg) (\<lambda>bg.
          and_then (walk_pairs kw rest first bg) (\<lambda>(prev_word, bg).
          Inr (setdefault_add prev_word OOV_TERM bg)))))"

text \<open>Lines 41 to 70.\<close>

fun build_bigrams :: "kwargs \<Rightarrow> string list list \<Rightarrow> bigrams \<Rightarrow> error + bigrams" where
  "build_bigrams kw [] bg = Inr bg"
| "build_bigrams kw (word_sequence # rest) bg =
     (case add_sequence kw word_sequence bg of
        Inl e \<Rightarrow> Inl e
      | Inr bg' \<Rightarrow> build_bigrams kw rest bg')"

subsection \<open>Node ids and the emitted lines\<close>

text \<open>
  \<open>node_ids\<close> is a dictionary from a word to its id; \<open>get_node_id\<close> gives a new word
  the id \<open>len(node_ids) + 1\<close> and stores it.
\<close>

type_synonym node_ids = "(string \<times> nat) list"

definition get_node_id :: "string \<Rightarrow> node_ids \<Rightarrow> nat \<times> node_ids" where
  "get_node_id word ids =
     (let node_id = (case map_of ids word of None \<Rightarrow> length ids + 1 | Some i \<Rightarrow> i)
      in (node_id, AList.update word node_id ids))"

text \<open>
  A line of the output before it is formatted: from id, to id, input label, output label
  and weight. The weight is a Python float, modelled as a real number.
\<close>

type_synonym line = "nat \<times> nat \<times> string \<times> string \<times> real"

text \<open>Lines 83 to 86.\<close>

definition weight_of :: "string set \<Rightarrow> real" where
  "weight_of successors =
     (if card successors > 0 then - ln (1 / real (card successors)) else 0)"

text \<open>Lines 88 to 91: one line for each successor, in sorted order.\<close>

fun emit_successors ::
  "nat \<Rightarrow> real \<Rightarrow> string list \<Rightarrow> node_ids \<Rightarrow> line list \<Rightarrow> node_ids \<times> line list" where
  "emit_successors from_id weight [] ids out = (ids, out)"
| "emit_successors from_id weight (to_word # rest) ids out =
     (case get_node_id to_word ids of
        (to_id, ids') \<Rightarrow>
          emit_successors from_id weight rest ids'
            (out @ [(from_id, to_id, to_word, to_word, weight)]))"

text \<open>Lines 79 to 91: the loop over the sorted keys.\<close>

fun emit_nodes ::
  "bigrams \<Rightarrow> string list \<Rightarrow> node_ids \<Rightarrow> line list \<Rightarrow> error + (node_ids \<times> line list)" where
  "emit_nodes bg [] ids out = Inr (ids, out)"
| "emit_nodes bg (from_word # rest) ids out =
     (case get_node_id from_word ids of
        (from_id, ids1) \<Rightarrow>
          (case map_of bg from_word of
             None \<Rightarrow> Inl (KeyError from_word)
           | Some successors \<Rightarrow>
               (case emit_successors from_id (weight_of successors)
                       (sorted_list_of_set successors) ids1 out of
                  (ids2, out2) \<Rightarrow> emit_nodes bg rest ids2 out2)))"

text \<open>
  The lines of the output and the number of the final state, \<open>len(node_ids)\<close>
  (lines 32 to 93 without the formatting).
\<close>

definition bigram_lines :: "kwargs \<Rightarrow> word_sequences \<Rightarrow> error + (line list \<times> nat)" where
  "bigram_lines kw word_sequences =
     and_then (build_bigrams kw (normalise word_sequences) [(OOV_TERM, {OOV_TERM})]) (\<lambda>bg.
     and_then (emit_nodes bg (sort (map fst bg)) [] []) (\<lambda>(ids, out).
     Inr (out, length ids)))"

subsection \<open>Formatting\<close>

text \<open>\<^verbatim>\<open>%d\<close> of a number that is not negative.\<close>

definition digit :: "nat \<Rightarrow> char" where
  "digit d = ''0123456789'' ! d"

fun show_nat :: "nat \<Rightarrow> string" where
  "show_nat n =
     (if n < 10 then [digit n]
      else show_nat (n div 10) @ [digit (n mod 10)])"

declare show_nat.simps [simp del]

text \<open>
  \<^verbatim>\<open>'%d    %d    %s    %s    %f' % (from_id, to_id, to_word, to_word, weight)\<close> and the
  newline. The conversion \<^verbatim>\<open>%f\<close> of a float belongs to Python, not to the repository:
  it is the parameter \<open>percent_f\<close>.
\<close>

definition format_line :: "(real \<Rightarrow> string) \<Rightarrow> line \<Rightarrow> string" where
  "format_line percent_f l =
     (case l of (from_id, to_id, w_in, w_out, weight) \<Rightarrow>
        show_nat from_id @ ''    '' @ show_nat to_id @ ''    '' @ w_in @ ''    '' @ w_out
          @ ''    '' @ percent_f weight @ [CHR 0x0A])"

text \<open>The whole function; \<open>encode\<close> is the identity on byte strings.\<close>

definition make_bigram_lm_fst ::
  "(real \<Rightarrow> string) \<Rightarrow> kwargs \<Rightarrow> word_sequences \<Rightarrow> error + string" where
  "make_bigram_lm_fst percent_f kw word_sequences =
     and_then (bigram_lines kw word_sequences) (\<lambda>(out, n).
     Inr (concat (map (format_line percent_f) out) @ show_nat n @ ''    0'' @ [CHR 0x0A]))"

subsection \<open>Reading the lines back as a graph on words\<close>

text \<open>
  A node id is labelled by the word on the lines that enter it. An edge read back from
  the lines is a triple of the label of the source, the label of the target and the
  weight.
\<close>

definition word_edges :: "line list \<Rightarrow> (string \<times> string \<times> real) list" where
  "word_edges ls =
     [(u, v, weight).
        (from_id, to_id, v, v', weight) \<leftarrow> ls,
        (from_id', to_id', u, u', weight') \<leftarrow> ls,
        to_id' = from_id]"

definition adjacency :: "line list \<Rightarrow> (string \<times> string) set" where
  "adjacency ls = set (map (\<lambda>(u, v, weight). (u, v)) (word_edges ls))"

definition node_labels :: "line list \<Rightarrow> string set" where
  "node_labels ls = set (map (\<lambda>(from_id, to_id, w_in, w_out, weight). w_in) ls)"

text \<open>The edges on words of the graph that the builder emits.\<close>

definition bigram_word_edges :: "kwargs \<Rightarrow> word_sequences \<Rightarrow> (string \<times> string \<times> real) set" where
  "bigram_word_edges kw word_sequences =
     (case bigram_lines kw word_sequences of
        Inl e \<Rightarrow> {}
      | Inr (out, n) \<Rightarrow> set (word_edges out))"

subsection \<open>Reading the text back\<close>

text \<open>
  The docstring names the output as OpenFST plain text format. Reading it back: the text
  is cut into lines at each newline; a line is cut into fields at each run of spaces or
  tabs; a line of four or five fields is an arc, with the source id, the target id, the
  input label, the output label and then the weight, if any; any other line, such as the
  line of the final state, is no arc.
\<close>

definition is_blank :: "char \<Rightarrow> bool" where
  "is_blank c \<longleftrightarrow> c = CHR '' '' \<or> c = CHR 0x09"

fun split_lines :: "string \<Rightarrow> string list" where
  "split_lines [] = [[]]"
| "split_lines (c # cs) =
     (if c = CHR 0x0A then [] # split_lines cs
      else (case split_lines cs of [] \<Rightarrow> [[c]] | l # ls \<Rightarrow> (c # l) # ls))"

text \<open>The fields of a line; \<open>cur\<close> is the field that is being read.\<close>

fun fields_from :: "string \<Rightarrow> string \<Rightarrow> string list" where
  "fields_from cur [] = (if cur = [] then [] else [cur])"
| "fields_from cur (c # cs) =
     (if is_blank c
      then (if cur = [] then fields_from [] cs else cur # fields_from [] cs)
      else fields_from (cur @ [c]) cs)"

definition line_fields :: "string \<Rightarrow> string list" where
  "line_fields s = fields_from [] s"

text \<open>A node id is a non-empty string of decimal digits.\<close>

definition digit_value :: "char \<Rightarrow> nat option" where
  "digit_value c = map_of (zip ''0123456789'' [0, 1, 2, 3, 4, 5, 6, 7, 8, 9]) c"

definition digits_value :: "string \<Rightarrow> nat option \<Rightarrow> nat option" where
  "digits_value s start =
     fold (\<lambda>c acc. case acc of
                   None \<Rightarrow> None
                 | Some a \<Rightarrow> (case digit_value c of None \<Rightarrow> None | Some d \<Rightarrow> Some (10 * a + d)))
       s start"

definition parse_nat :: "string \<Rightarrow> nat option" where
  "parse_nat s = (if s = [] then None else digits_value s (Some 0))"

text \<open>An arc: the source id, the target id, the input label and the output label.\<close>

type_synonym arc = "nat \<times> nat \<times> string \<times> string"

definition parse_arc :: "string \<Rightarrow> arc option" where
  "parse_arc l =
     (case line_fields l of
        src # dst # w_in # w_out # rest \<Rightarrow>
          (if length rest \<le> 1
           then (case parse_nat src of
                   None \<Rightarrow> None
                 | Some from_id \<Rightarrow>
                     (case parse_nat dst of
                        None \<Rightarrow> None
                      | Some to_id \<Rightarrow> Some (from_id, to_id, w_in, w_out)))
           else None)
      | _ \<Rightarrow> None)"

definition parse_fst :: "string \<Rightarrow> arc list" where
  "parse_fst text = List.map_filter parse_arc (split_lines text)"

text \<open>
  The adjacency relation of the arcs: a node id is labelled by the word on the arcs that
  enter it, and a word \<open>v\<close> follows a word \<open>u\<close> when an arc labelled \<open>v\<close> leaves a node
  that an arc labelled \<open>u\<close> enters.
\<close>

definition arc_adjacency :: "arc list \<Rightarrow> (string \<times> string) set" where
  "arc_adjacency arcs =
     set [(u, v).
            (from_id, to_id, v, v') \<leftarrow> arcs,
            (from_id', to_id', u, u') \<leftarrow> arcs,
            to_id' = from_id]"

definition parsed_adjacency :: "string \<Rightarrow> (string \<times> string) set" where
  "parsed_adjacency text = arc_adjacency (parse_fst text)"

text \<open>The adjacency relation read back from the text that the builder returns.\<close>

definition bigram_parsed_adjacency ::
  "(real \<Rightarrow> string) \<Rightarrow> kwargs \<Rightarrow> word_sequences \<Rightarrow> (string \<times> string) set" where
  "bigram_parsed_adjacency percent_f kw word_sequences =
     (case make_bigram_lm_fst percent_f kw word_sequences of
        Inl e \<Rightarrow> {}
      | Inr text \<Rightarrow> parsed_adjacency text)"

text \<open>
  A text that holds no space, tab or newline, and a word that the text format can carry
  as a label: a non-empty one of this kind. The builder writes a word as it is, and the
  format has no way to quote one.
\<close>

definition plain_text :: "string \<Rightarrow> bool" where
  "plain_text s \<longleftrightarrow> list_all (\<lambda>c. \<not> is_blank c \<and> c \<noteq> CHR 0x0A) s"

definition plain_word :: "string \<Rightarrow> bool" where
  "plain_word w \<longleftrightarrow> w \<noteq> [] \<and> plain_text w"

text \<open>A line of the builder as an arc, and as text without its newline.\<close>

definition drop_weight :: "line \<Rightarrow> arc" where
  "drop_weight l =
     (case l of (from_id, to_id, w_in, w_out, weight) \<Rightarrow> (from_id, to_id, w_in, w_out))"

definition line_body :: "(real \<Rightarrow> string) \<Rightarrow> line \<Rightarrow> string" where
  "line_body percent_f l =
     (case l of (from_id, to_id, w_in, w_out, weight) \<Rightarrow>
        show_nat from_id @ ''    '' @ show_nat to_id @ ''    '' @ w_in @ ''    '' @ w_out
          @ ''    '' @ percent_f weight)"

subsection \<open>The successor relation of a dictionary and of the input\<close>

text \<open>The pairs of a key and one of its successors.\<close>

definition succ_rel :: "bigrams \<Rightarrow> (string \<times> string) set" where
  "succ_rel bg = {(k, s). \<exists>S. map_of bg k = Some S \<and> s \<in> S}"

text \<open>
  What holds of the dictionary at every point of the loops: no key occurs twice, and
  every successor set is finite and not empty.
\<close>

definition wf_bigrams :: "bigrams \<Rightarrow> bool" where
  "wf_bigrams bg \<longleftrightarrow>
     distinct (map fst bg) \<and> (\<forall>k S. map_of bg k = Some S \<longrightarrow> finite S \<and> S \<noteq> {})"

text \<open>A step returns a dictionary, which is well formed and has the relation \<open>R\<close>.\<close>

definition steps_to :: "error + bigrams \<Rightarrow> (string \<times> string) set \<Rightarrow> bool" where
  "steps_to r R \<longleftrightarrow> (\<exists>bg. r = Inr bg \<and> wf_bigrams bg \<and> succ_rel bg = R)"

text \<open>The pairs that lines 56 to 65 add for one pair of consecutive words.\<close>

definition pair_rel :: "kwargs \<Rightarrow> string \<Rightarrow> string \<Rightarrow> (string \<times> string) set" where
  "pair_rel kw prev_word word =
     {(prev_word, word)}
     \<union> (if conservative kw then {(prev_word, OOV_TERM)} else {})
     \<union> (if disfluency kw
        then {prev_word} \<times> set (disfluencies kw) \<union> set (disfluencies kw) \<times> {word}
        else {})"

text \<open>The pairs that the loop of lines 55 to 67 adds.\<close>

fun pairs_rel :: "kwargs \<Rightarrow> string \<Rightarrow> string list \<Rightarrow> (string \<times> string) set" where
  "pairs_rel kw prev_word [] = {}"
| "pairs_rel kw prev_word (word # rest) = pair_rel kw prev_word word \<union> pairs_rel kw word rest"

text \<open>The pairs that one word sequence adds (lines 42 to 70).\<close>

definition seq_rel :: "kwargs \<Rightarrow> string list \<Rightarrow> (string \<times> string) set" where
  "seq_rel kw ws =
     (case ws of
        [] \<Rightarrow> {}
      | first # rest \<Rightarrow>
          {(OOV_TERM, first)}
          \<union> (if disfluency kw
             then {OOV_TERM} \<times> set (disfluencies kw)
                  \<union> set (disfluencies kw) \<times> {first, OOV_TERM}
             else {})
          \<union> pairs_rel kw first rest
          \<union> {(last ws, OOV_TERM)})"

definition seqs_rel :: "kwargs \<Rightarrow> string list list \<Rightarrow> (string \<times> string) set" where
  "seqs_rel kw seqs = (\<Union>ws \<in> set seqs. seq_rel kw ws)"

text \<open>The disfluencies that are in use.\<close>

definition dis_words :: "kwargs \<Rightarrow> string set" where
  "dis_words kw = (if disfluency kw then set (disfluencies kw) else {})"

text \<open>
  The successor relation as section 4.1 of the specification words it, without the
  conservative and disfluency flags: the seed OOV to OOV (step 1); the first word of each
  non-empty sequence is a successor of OOV (step 2); in each consecutive pair the second
  word is a successor of the first (step 3); OOV is a successor of the last word of each
  non-empty sequence (step 4).
\<close>

definition spec_successors :: "string list list \<Rightarrow> (string \<times> string) set" where
  "spec_successors S =
     {(OOV_TERM, OOV_TERM)}
     \<union> {(OOV_TERM, hd ws) | ws. ws \<in> set S \<and> ws \<noteq> []}
     \<union> {(prev, word). \<exists>ws. ws \<in> set S \<and> (prev, word) \<in> set (zip ws (tl ws))}
     \<union> {(last ws, OOV_TERM) | ws. ws \<in> set S \<and> ws \<noteq> []}"

subsection \<open>The node ids and the lines in closed form\<close>

text \<open>The ids handed out so far are 1, 2, 3 and so on, one for each word.\<close>

definition ids_ok :: "node_ids \<Rightarrow> bool" where
  "ids_ok ids \<longleftrightarrow> distinct (map fst ids) \<and> map snd ids = [1..<Suc (length ids)]"

text \<open>The lines of one key, given the final ids \<open>m\<close>.\<close>

definition node_lines :: "(string \<rightharpoonup> nat) \<Rightarrow> bigrams \<Rightarrow> string \<Rightarrow> line list" where
  "node_lines m bg k =
     (case map_of bg k of
        None \<Rightarrow> []
      | Some S \<Rightarrow> map (\<lambda>s. (the (m k), the (m s), s, s, weight_of S)) (sorted_list_of_set S))"

subsection \<open>The uniform distribution at a node\<close>

text \<open>The lines that leave the node with a given id.\<close>

definition outgoing :: "line list \<Rightarrow> nat \<Rightarrow> line list" where
  "outgoing ls node = filter (\<lambda>(from_id, to_id, w_in, w_out, weight). from_id = node) ls"

text \<open>
  The node has \<open>N > 0\<close> outgoing lines, to \<open>N\<close> different nodes, each of weight
  \<open>-ln (1/N)\<close>, and \<open>exp (-weight)\<close> sums to 1 over them.
\<close>

definition uniform_at :: "line list \<Rightarrow> nat \<Rightarrow> bool" where
  "uniform_at ls node \<longleftrightarrow>
     (let out = outgoing ls node; N = length out
      in 0 < N
         \<and> distinct (map (\<lambda>(from_id, to_id, w_in, w_out, weight). to_id) out)
         \<and> list_all (\<lambda>(from_id, to_id, w_in, w_out, weight). weight = - ln (1 / real N)) out
         \<and> sum_list (map (\<lambda>(from_id, to_id, w_in, w_out, weight). exp (- weight)) out) = 1)"

section \<open>The transcript builder: \<open>make_transcript_fst\<close>\<close>

text \<open>
  An emitted tuple: from node, to node, input label, output label, weight. Node ids are
  Python integers; the weights \<open>2.0\<close> and \<open>0.0\<close> are floats, modelled as reals.
\<close>

type_synonym edge = "int \<times> int \<times> string \<times> string \<times> real"

text \<open>
  The self loops at a node (lines 133 to 138, 163 to 168 and 171 to 176): one for each
  disfluency when \<open>disfluency\<close> is set, then one for the OOV term when
  \<open>conservative\<close> is set.
\<close>

definition self_loops :: "kwargs \<Rightarrow> int \<Rightarrow> edge list" where
  "self_loops kw node =
     (if disfluency kw then map (\<lambda>dis. (node, node, dis, dis, 0)) (disfluencies kw) else [])
     @ (if conservative kw then [(node, node, OOV_TERM, OOV_TERM, 0)] else [])"

text \<open>The local variables that the loops change.\<close>

record tstate =
  cur_node_id :: int
  next_node_id :: int
  next_available_node_id :: int
  output_edges :: "edge list"
  start_node_flag :: bool
  end_node_flag :: bool

text \<open>Line 122.\<close>

definition end_node_id_of :: "string list list \<Rightarrow> int" where
  "end_node_id_of word_sequences =
     sum_list (map (\<lambda>word_sequence. int (length word_sequence) - 1) word_sequences) + 1"

text \<open>
  Lines 148 to 168: the loop over \<open>enumerate(word_sequence)\<close>, by recursion on the words
  that remain. \<open>i == len(word_sequence) - 1\<close> holds when no word remains after the
  current one, \<open>i == len(word_sequence) - 2\<close> when exactly one does.
\<close>

fun walk_words :: "kwargs \<Rightarrow> int \<Rightarrow> string list \<Rightarrow> tstate \<Rightarrow> tstate" where
  "walk_words kw end_node_id [] st = st"
| "walk_words kw end_node_id (word # rest) st =
     (let st1 = st\<lparr>output_edges := output_edges st @
                   [(cur_node_id st, next_node_id st, word, word, 2),
                    (cur_node_id st, next_node_id st, OOV_TERM, OOV_TERM, 0)]\<rparr>
      in if rest = [] then st1
         else
           let st2 = (if length rest = 1
                      then st1\<lparr>cur_node_id := next_node_id st1, next_node_id := end_node_id\<rparr>
                      else st1\<lparr>cur_node_id := next_node_id st1,
                               next_node_id := next_available_node_id st1,
                               next_available_node_id := next_available_node_id st1 + 1\<rparr>);
               st3 = st2\<lparr>output_edges := output_edges st2 @ self_loops kw (cur_node_id st2)\<rparr>
           in walk_words kw end_node_id rest st3)"

text \<open>Lines 128 to 178: the body of the loop over the word sequences.\<close>

definition add_chain :: "kwargs \<Rightarrow> int \<Rightarrow> string list \<Rightarrow> tstate \<Rightarrow> tstate" where
  "add_chain kw end_node_id word_sequence st =
     (if length word_sequence = 0 then st
      else
        let st1 = st\<lparr>cur_node_id := 0\<rparr>;
            st2 = (if start_node_flag st1
                   then st1\<lparr>output_edges := output_edges st1 @ self_loops kw (cur_node_id st1),
                            start_node_flag := False\<rparr>
                   else st1);
            st3 = (if length word_sequence = 1
                   then st2\<lparr>next_node_id := end_node_id\<rparr>
                   else st2\<lparr>next_node_id := next_available_node_id st2,
                            next_available_node_id := next_available_node_id st2 + 1\<rparr>);
            st4 = walk_words kw end_node_id word_sequence st3
        in if end_node_flag st4
           then st4\<lparr>output_edges := output_edges st4 @ self_loops kw end_node_id, end_node_flag := False\<rparr>
           else st4)"

text \<open>Lines 120 to 126: the state before the loop.\<close>

definition initial_tstate :: tstate where
  "initial_tstate =
     \<lparr>cur_node_id = 0, next_node_id = 0, next_available_node_id = 1, output_edges = [],
      start_node_flag = True, end_node_flag = True\<rparr>"

text \<open>Lines 127 to 178: the loop over the word sequences.\<close>

definition transcript_loop :: "kwargs \<Rightarrow> int \<Rightarrow> string list list \<Rightarrow> tstate" where
  "transcript_loop kw end_node_id word_sequences =
     fold (add_chain kw end_node_id) word_sequences initial_tstate"

text \<open>
  Lines 111 to 182: the sorted edges and the end node, or the \<open>AssertionError\<close> of
  line 180.
\<close>

definition transcript_edges :: "kwargs \<Rightarrow> word_sequences \<Rightarrow> error + (edge list \<times> int)" where
  "transcript_edges kw word_sequences =
     (let seqs = normalise word_sequences;
          end_node_id = end_node_id_of seqs;
          st = transcript_loop kw end_node_id seqs
      in if end_node_id = next_available_node_id st
         then Inr (sort (output_edges st), end_node_id)
         else Inl (AssertionError end_node_id (next_available_node_id st)))"

text \<open>An integer in an f-string.\<close>

definition show_int :: "int \<Rightarrow> string" where
  "show_int i = (if i < 0 then ''-'' @ show_nat (nat (- i)) else show_nat (nat i))"

text \<open>\<^verbatim>\<open>sep.join(xs)\<close>\<close>

fun join :: "string \<Rightarrow> string list \<Rightarrow> string" where
  "join sep [] = []"
| "join sep [x] = x"
| "join sep (x # y # ys) = x @ sep @ join sep (y # ys)"

text \<open>
  Line 184: \<^verbatim>\<open>f"{x[0]} {x[1]} {x[2]} {x[3]} {x[4]}"\<close>. The text of a float in an
  f-string belongs to Python: it is the parameter \<open>float_str\<close>.
\<close>

definition format_edge :: "(real \<Rightarrow> string) \<Rightarrow> edge \<Rightarrow> string" where
  "format_edge float_str e =
     (case e of (from_id, to_id, w_in, w_out, weight) \<Rightarrow>
        show_int from_id @ '' '' @ show_int to_id @ '' '' @ w_in @ '' '' @ w_out
          @ '' '' @ float_str weight)"

text \<open>The whole function (lines 111 to 187).\<close>

definition make_transcript_fst ::
  "(real \<Rightarrow> string) \<Rightarrow> kwargs \<Rightarrow> word_sequences \<Rightarrow> error + string" where
  "make_transcript_fst float_str kw word_sequences =
     and_then (transcript_edges kw word_sequences) (\<lambda>(out, end_node_id).
     Inr (join [CHR 0x0A] (map (format_edge float_str) out)
          @ [CHR 0x0A] @ show_int end_node_id @ '' 0'' @ [CHR 0x0A]))"

subsection \<open>The chain of one word sequence in closed form\<close>

text \<open>
  The edges of one word position: the edge of the word, the parallel edge of the OOV
  term and, when \<open>inner\<close> holds, the self loops at the target.
\<close>

definition position_edges :: "kwargs \<Rightarrow> int \<Rightarrow> int \<Rightarrow> string \<Rightarrow> bool \<Rightarrow> edge list" where
  "position_edges kw source target word inner =
     [(source, target, word, word, 2), (source, target, OOV_TERM, OOV_TERM, 0)]
     @ (if inner then self_loops kw target else [])"

text \<open>
  Source and target of position \<open>i\<close> when the inner loop starts in state \<open>st\<close> on
  \<open>n\<close> words.
\<close>

definition walk_target :: "int \<Rightarrow> tstate \<Rightarrow> nat \<Rightarrow> nat \<Rightarrow> int" where
  "walk_target e st n i =
     (if i = 0 then next_node_id st
      else if i + 1 = n then e
      else next_available_node_id st + int i - 1)"

definition walk_source :: "int \<Rightarrow> tstate \<Rightarrow> nat \<Rightarrow> nat \<Rightarrow> int" where
  "walk_source e st n i = (if i = 0 then cur_node_id st else walk_target e st n (i - 1))"

text \<open>
  Source and target of position \<open>i\<close> of a sequence of \<open>n\<close> words that is added when
  the next available node id is \<open>first_free\<close>: the chain starts at node 0, runs through
  \<open>first_free\<close>, \<open>first_free + 1\<close>, and so on, and ends at the end node.
\<close>

definition chain_source :: "int \<Rightarrow> nat \<Rightarrow> int" where
  "chain_source first_free i = (if i = 0 then 0 else first_free + int i - 1)"

definition chain_target :: "int \<Rightarrow> int \<Rightarrow> nat \<Rightarrow> nat \<Rightarrow> int" where
  "chain_target end_node_id first_free n i =
     (if i + 1 = n then end_node_id else first_free + int i)"

subsection \<open>The end node id as the specification words it\<close>

text \<open>
  Section 4.2, step 1 of the specification:
  \<^verbatim>\<open>1 + sum(max(len(seq)-1, 0) for seq in sequences)\<close>.
\<close>

definition spec_end_node_id :: "string list list \<Rightarrow> int" where
  "spec_end_node_id sequences =
     1 + sum_list (map (\<lambda>seq. max (int (length seq) - 1) 0) sequences)"

section \<open>The language model file: \<open>make_bigram_language_model\<close>\<close>

text \<open>
  The part of the world the function touches: the files (a path has a content or does
  not exist) and the paths that cannot be deleted.
\<close>

record world =
  files :: "string \<rightharpoonup> string"
  locked :: "string set"

text \<open>\<^verbatim>\<open>os.unlink(path)\<close>: raises when the file does not exist or cannot be deleted.\<close>

definition os_unlink :: "string \<Rightarrow> world \<Rightarrow> error + world" where
  "os_unlink path w =
     (if files w path \<noteq> None \<and> path \<notin> locked w
      then Inr (w\<lparr>files := (files w)(path := None)\<rparr>)
      else Inl (OSError path))"

text \<open>
  Lines 200 to 229. The external graph compiler is the parameter \<open>mkgraph\<close>: given
  its arguments (prototype directory, text file, output file) it changes the world and
  may raise. The names that \<open>tempfile\<close> chooses are the parameters \<open>txt_name\<close> and
  \<open>hclg_filename\<close>. The result is what the call returns or raises, with the world it
  leaves. An exception raised in the \<open>finally\<close> block replaces the one in flight.
\<close>

definition make_bigram_language_model ::
  "(real \<Rightarrow> string) \<Rightarrow> (string list \<Rightarrow> world \<Rightarrow> error option \<times> world) \<Rightarrow> string \<Rightarrow> string
     \<Rightarrow> kwargs \<Rightarrow> word_sequences \<Rightarrow> string \<Rightarrow> world \<Rightarrow> (error + string) \<times> world" where
  "make_bigram_language_model percent_f mkgraph txt_name hclg_filename kw kaldi_seq
       proto_langdir w =
     (case make_bigram_lm_fst percent_f kw kaldi_seq of
        Inl e \<Rightarrow> (Inl e, w)
      | Inr txt_fst \<Rightarrow>
          (let w1 = w\<lparr>files := (files w)(txt_name \<mapsto> txt_fst)\<rparr>
           in case mkgraph [proto_langdir, txt_name, hclg_filename] w1 of
                (raised, w2) \<Rightarrow>
                  (case (case raised of
                           None \<Rightarrow> (Inr hclg_filename, w2)
                         | Some e \<Rightarrow>
                             (Inl e, case os_unlink hclg_filename w2 of
                                       Inl e' \<Rightarrow> w2
                                     | Inr w' \<Rightarrow> w')) of
                     (result, w3) \<Rightarrow>
                       (case os_unlink txt_name w3 of
                          Inl e' \<Rightarrow> (Inl e', w3)
                        | Inr w4 \<Rightarrow> (result, w4)))))"

section \<open>Properties of the bigram builder on a concrete input\<close>

lemmas bigram_eval =
  bigram_lines_def add_sequence_def and_then_def getitem_add_def getitem_update_def
  setdefault_add_def OOV_TERM_def pair_step_def get_node_id_def weight_of_def

lemma hello_world_lines:
  "bigram_lines \<lparr>conservative = False, disfluency = False, disfluencies = ds\<rparr>
     (Nested [[''hello'', ''world'']]) =
   Inr ([(1, 1, ''<unk>'', ''<unk>'', ln 2),
         (1, 2, ''hello'', ''hello'', ln 2),
         (2, 3, ''world'', ''world'', 0),
         (3, 1, ''<unk>'', ''<unk>'', 0)], 3)"
  by (simp add: bigram_eval ln_div)

text \<open>
  Claim C1, as the code has it. For \<open>[["hello", "world"]]\<close> without the conservative
  and disfluency flags the builder emits four lines on the three nodes OOV (id 1), hello
  (id 2) and world (id 3): the dictionary is seeded with OOV as a successor of OOV, so
  the OOV node has the two successors OOV and hello, and each of its two edges weighs
  \<open>-ln (1/2) = ln 2\<close>; the edges from hello to world and from world to OOV weigh 0.
\<close>

theorem C1_hello_world_amended:
  "bigram_lines \<lparr>conservative = False, disfluency = False, disfluencies = ds\<rparr>
     (Nested [[''hello'', ''world'']]) =
   Inr ([(1, 1, ''<unk>'', ''<unk>'', ln 2),
         (1, 2, ''hello'', ''hello'', ln 2),
         (2, 3, ''world'', ''world'', 0),
         (3, 1, ''<unk>'', ''<unk>'', 0)], 3)
   \<and> node_labels [(1, 1, ''<unk>'', ''<unk>'', ln 2),
         (1, 2, ''hello'', ''hello'', ln 2),
         (2, 3, ''world'', ''world'', 0),
         (3, 1, ''<unk>'', ''<unk>'', 0)] = {OOV_TERM, ''hello'', ''world''}
   \<and> bigram_word_edges \<lparr>conservative = False, disfluency = False, disfluencies = ds\<rparr>
       (Nested [[''hello'', ''world'']]) =
     {(OOV_TERM, OOV_TERM, ln 2), (OOV_TERM, ''hello'', ln 2),
      (''hello'', ''world'', 0), (''world'', OOV_TERM, 0)}"
  by (simp add: bigram_word_edges_def hello_world_lines word_edges_def node_labels_def
      OOV_TERM_def insert_commute)

text \<open>
  Claim C1, as the specification states it, fails: the edges read back from the output
  are not the three edges OOV to hello, hello to world and world to OOV of weight 0,
  since the output also has the edge from OOV to OOV, of weight \<open>ln 2\<close>.
\<close>

theorem C1_hello_world_counterexample:
  "bigram_word_edges \<lparr>conservative = False, disfluency = False, disfluencies = []\<rparr>
       (Nested [[''hello'', ''world'']]) \<noteq>
     {(OOV_TERM, ''hello'', 0), (''hello'', ''world'', 0), (''world'', OOV_TERM, 0)}"
proof
  assume eq: "bigram_word_edges \<lparr>conservative = False, disfluency = False, disfluencies = []\<rparr>
       (Nested [[''hello'', ''world'']]) =
     {(OOV_TERM, ''hello'', 0), (''hello'', ''world'', 0), (''world'', OOV_TERM, 0)}"
  have "(''<unk>'', ''<unk>'', ln 2) \<in> bigram_word_edges
      \<lparr>conservative = False, disfluency = False, disfluencies = []\<rparr>
      (Nested [[''hello'', ''world'']])"
    by (simp add: bigram_word_edges_def hello_world_lines word_edges_def)
  then show False
    unfolding eq by (simp add: OOV_TERM_def)
qed

section \<open>Properties of the bigram builder on every input\<close>

subsection \<open>The dictionary after the loops\<close>

lemma domain_succ_rel:
  "wf_bigrams bg \<Longrightarrow> Domain (succ_rel bg) = fst ` set bg"
proof -
  assume wf: "wf_bigrams bg"
  have "k \<in> Domain (succ_rel bg) \<longleftrightarrow> map_of bg k \<noteq> None" for k
  proof
    assume "k \<in> Domain (succ_rel bg)"
    then show "map_of bg k \<noteq> None" by (auto simp: succ_rel_def)
  next
    assume "map_of bg k \<noteq> None"
    then obtain S where S: "map_of bg k = Some S" by auto
    with wf have "S \<noteq> {}" by (auto simp: wf_bigrams_def)
    then obtain s where "s \<in> S" by auto
    with S show "k \<in> Domain (succ_rel bg)" by (auto simp: succ_rel_def)
  qed
  then show ?thesis
    by (auto simp: map_of_eq_None_iff)
qed

lemma in_domain_lookup:
  "k \<in> Domain (succ_rel bg) \<Longrightarrow> \<exists>S. map_of bg k = Some S"
  by (auto simp: succ_rel_def)

lemma succ_rel_update:
  "succ_rel (AList.update k S bg) = {(k', s) \<in> succ_rel bg. k' \<noteq> k} \<union> {k} \<times> S"
  by (auto simp: succ_rel_def update_conv' split: if_splits)

lemma wf_update:
  "wf_bigrams bg \<Longrightarrow> finite S \<Longrightarrow> S \<noteq> {} \<Longrightarrow> wf_bigrams (AList.update k S bg)"
  by (auto simp: wf_bigrams_def distinct_update update_conv')

lemma setdefault_add_effect:
  assumes "wf_bigrams bg"
  shows "wf_bigrams (setdefault_add k w bg)"
    and "succ_rel (setdefault_add k w bg) = insert (k, w) (succ_rel bg)"
proof -
  show "wf_bigrams (setdefault_add k w bg)"
    using assms unfolding setdefault_add_def
    by (intro wf_update) (auto simp: wf_bigrams_def split: option.splits)
  show "succ_rel (setdefault_add k w bg) = insert (k, w) (succ_rel bg)"
    unfolding setdefault_add_def succ_rel_update
    by (auto simp: succ_rel_def split: option.splits)
qed

lemma getitem_add_effect:
  assumes "wf_bigrams bg" and "k \<in> Domain (succ_rel bg)"
  shows "steps_to (getitem_add k w bg) (insert (k, w) (succ_rel bg))"
proof -
  obtain S where S: "map_of bg k = Some S"
    using in_domain_lookup [OF assms(2)] by auto
  have "finite S" using assms(1) S by (auto simp: wf_bigrams_def)
  then have "wf_bigrams (AList.update k (insert w S) bg)"
    using assms(1) by (intro wf_update) auto
  moreover have "succ_rel (AList.update k (insert w S) bg) = insert (k, w) (succ_rel bg)"
    unfolding succ_rel_update using S by (auto simp: succ_rel_def)
  ultimately show ?thesis
    by (simp add: steps_to_def getitem_add_def S)
qed

lemma getitem_update_effect:
  assumes "wf_bigrams bg" and "k \<in> Domain (succ_rel bg)"
  shows "steps_to (getitem_update k ws bg) (succ_rel bg \<union> {k} \<times> set ws)"
proof -
  obtain S where S: "map_of bg k = Some S"
    using in_domain_lookup [OF assms(2)] by auto
  have "finite S" "S \<noteq> {}" using assms(1) S by (auto simp: wf_bigrams_def)
  then have "wf_bigrams (AList.update k (S \<union> set ws) bg)"
    using assms(1) by (intro wf_update) auto
  moreover have "succ_rel (AList.update k (S \<union> set ws) bg) = succ_rel bg \<union> {k} \<times> set ws"
    unfolding succ_rel_update using S by (auto simp: succ_rel_def)
  ultimately show ?thesis
    by (simp add: steps_to_def getitem_update_def S)
qed

lemma steps_to_and_then:
  assumes "steps_to r R"
    and "\<And>bg. wf_bigrams bg \<Longrightarrow> succ_rel bg = R \<Longrightarrow> steps_to (f bg) R'"
  shows "steps_to (and_then r f) R'"
  using assms by (auto simp: steps_to_def and_then_def)

lemma steps_to_Inr:
  "wf_bigrams bg \<Longrightarrow> succ_rel bg = R \<Longrightarrow> steps_to (Inr bg) R"
  by (simp add: steps_to_def)

lemma steps_to_case:
  assumes "steps_to r R"
    and "\<And>bg. wf_bigrams bg \<Longrightarrow> succ_rel bg = R \<Longrightarrow> steps_to (f bg) R'"
  shows "steps_to (case r of Inl e \<Rightarrow> Inl e | Inr bg \<Rightarrow> f bg) R'"
  using assms by (auto simp: steps_to_def)

lemma start_disfluencies_effect:
  "wf_bigrams bg \<Longrightarrow>
   steps_to (start_disfluencies ds prev_word bg)
     (succ_rel bg \<union> set ds \<times> {prev_word, OOV_TERM})"
proof (induction ds arbitrary: bg)
  case Nil
  then show ?case by (simp add: steps_to_def)
next
  case (Cons dis rest)
  let ?bg1 = "setdefault_add dis prev_word bg"
  have wf1: "wf_bigrams ?bg1" and rel1: "succ_rel ?bg1 = insert (dis, prev_word) (succ_rel bg)"
    using setdefault_add_effect [OF Cons.prems] by auto
  have "dis \<in> Domain (succ_rel ?bg1)" by (auto simp: rel1)
  from getitem_add_effect [OF wf1 this]
  have "steps_to (getitem_add dis OOV_TERM ?bg1) (insert (dis, OOV_TERM) (succ_rel ?bg1))" .
  then have "steps_to (start_disfluencies (dis # rest) prev_word bg)
      (insert (dis, OOV_TERM) (succ_rel ?bg1) \<union> set rest \<times> {prev_word, OOV_TERM})"
    unfolding start_disfluencies.simps
  proof (rule steps_to_case)
    fix bg' assume wf': "wf_bigrams bg'"
      and rel': "succ_rel bg' = insert (dis, OOV_TERM) (succ_rel ?bg1)"
    from Cons.IH [OF wf'] show "steps_to (start_disfluencies rest prev_word bg')
        (insert (dis, OOV_TERM) (succ_rel ?bg1) \<union> set rest \<times> {prev_word, OOV_TERM})"
      by (simp add: rel')
  qed
  moreover have "insert (dis, OOV_TERM) (succ_rel ?bg1) \<union> set rest \<times> {prev_word, OOV_TERM}
      = succ_rel bg \<union> set (dis # rest) \<times> {prev_word, OOV_TERM}"
    by (auto simp: rel1)
  ultimately show ?case by simp
qed

lemma inner_disfluencies_effect:
  "wf_bigrams bg \<Longrightarrow> set ds \<subseteq> Domain (succ_rel bg) \<Longrightarrow>
   steps_to (inner_disfluencies ds word bg) (succ_rel bg \<union> set ds \<times> {word})"
proof (induction ds arbitrary: bg)
  case Nil
  then show ?case by (simp add: steps_to_def)
next
  case (Cons dis rest)
  have "steps_to (getitem_add dis word bg) (insert (dis, word) (succ_rel bg))"
    using Cons.prems by (intro getitem_add_effect) auto
  then have "steps_to (inner_disfluencies (dis # rest) word bg)
      (insert (dis, word) (succ_rel bg) \<union> set rest \<times> {word})"
    unfolding inner_disfluencies.simps
  proof (rule steps_to_case)
    fix bg' assume wf': "wf_bigrams bg'" and rel': "succ_rel bg' = insert (dis, word) (succ_rel bg)"
    have "set rest \<subseteq> Domain (succ_rel bg')"
      using Cons.prems(2) by (auto simp: rel')
    from Cons.IH [OF wf' this] show "steps_to (inner_disfluencies rest word bg')
        (insert (dis, word) (succ_rel bg) \<union> set rest \<times> {word})"
      by (simp add: rel')
  qed
  moreover have "insert (dis, word) (succ_rel bg) \<union> set rest \<times> {word}
      = succ_rel bg \<union> set (dis # rest) \<times> {word}"
    by auto
  ultimately show ?case by simp
qed

lemma pair_step_effect:
  assumes wf: "wf_bigrams bg"
    and dis: "disfluency kw \<Longrightarrow> set (disfluencies kw) \<subseteq> Domain (succ_rel bg)"
  shows "steps_to (pair_step kw prev_word word bg) (succ_rel bg \<union> pair_rel kw prev_word word)"
proof -
  let ?R1 = "insert (prev_word, word) (succ_rel bg)"
  let ?R2 = "?R1 \<union> (if conservative kw then {(prev_word, OOV_TERM)} else {})"
  have s1: "steps_to (Inr (setdefault_add prev_word word bg)) ?R1"
    using setdefault_add_effect [OF wf] by (simp add: steps_to_def)
  have s2: "steps_to (if conservative kw then getitem_add prev_word OOV_TERM b else Inr b) ?R2"
    if "wf_bigrams b" "succ_rel b = ?R1" for b
  proof (cases "conservative kw")
    case True
    have "prev_word \<in> Domain (succ_rel b)" using that by auto
    from getitem_add_effect [OF that(1) this] show ?thesis
      using True that by simp
  next
    case False
    then show ?thesis using that by (simp add: steps_to_def)
  qed
  have s3: "steps_to (if disfluency kw
        then and_then (getitem_update prev_word (disfluencies kw) b)
               (inner_disfluencies (disfluencies kw) word)
        else Inr b) (succ_rel bg \<union> pair_rel kw prev_word word)"
    if b: "wf_bigrams b" "succ_rel b = ?R2" for b
  proof (cases "disfluency kw")
    case True
    have "prev_word \<in> Domain (succ_rel b)" using b by auto
    from getitem_update_effect [OF b(1) this]
    have "steps_to (getitem_update prev_word (disfluencies kw) b)
        (succ_rel b \<union> {prev_word} \<times> set (disfluencies kw))" .
    then have "steps_to (and_then (getitem_update prev_word (disfluencies kw) b)
               (inner_disfluencies (disfluencies kw) word))
        (succ_rel b \<union> {prev_word} \<times> set (disfluencies kw) \<union> set (disfluencies kw) \<times> {word})"
    proof (rule steps_to_and_then)
      fix b' assume b': "wf_bigrams b'"
        "succ_rel b' = succ_rel b \<union> {prev_word} \<times> set (disfluencies kw)"
      have "set (disfluencies kw) \<subseteq> Domain (succ_rel b')"
        using dis [OF True] b b' by auto
      from inner_disfluencies_effect [OF b'(1) this]
      show "steps_to (inner_disfluencies (disfluencies kw) word b')
          (succ_rel b \<union> {prev_word} \<times> set (disfluencies kw) \<union> set (disfluencies kw) \<times> {word})"
        by (simp add: b')
    qed
    moreover have "succ_rel b \<union> {prev_word} \<times> set (disfluencies kw) \<union> set (disfluencies kw) \<times> {word}
        = succ_rel bg \<union> pair_rel kw prev_word word"
      using True b by (auto simp: pair_rel_def)
    ultimately show ?thesis using True by simp
  next
    case False
    have "?R2 = succ_rel bg \<union> pair_rel kw prev_word word"
      using False by (auto simp: pair_rel_def)
    then show ?thesis using False b by (simp add: steps_to_def)
  qed
  show ?thesis
    unfolding pair_step_def
    by (rule steps_to_and_then [OF s1], rule steps_to_and_then [OF s2], assumption+, rule s3)
qed

lemma walk_pairs_effect:
  assumes "wf_bigrams bg"
    and "disfluency kw \<Longrightarrow> set (disfluencies kw) \<subseteq> Domain (succ_rel bg)"
  shows "\<exists>bg'. walk_pairs kw rest prev_word bg = Inr (last (prev_word # rest), bg')
           \<and> wf_bigrams bg' \<and> succ_rel bg' = succ_rel bg \<union> pairs_rel kw prev_word rest"
  using assms
proof (induction rest arbitrary: prev_word bg)
  case Nil
  then show ?case by simp
next
  case (Cons word rest)
  from pair_step_effect [OF Cons.prems(1), of kw prev_word word] Cons.prems(2)
  obtain bg1 where bg1: "pair_step kw prev_word word bg = Inr bg1" "wf_bigrams bg1"
      "succ_rel bg1 = succ_rel bg \<union> pair_rel kw prev_word word"
    by (auto simp: steps_to_def)
  have "disfluency kw \<Longrightarrow> set (disfluencies kw) \<subseteq> Domain (succ_rel bg1)"
    using Cons.prems(2) bg1(3) by auto
  from Cons.IH [OF bg1(2) this, of word]
  obtain bg' where bg': "walk_pairs kw rest word bg1 = Inr (last (word # rest), bg')"
      "wf_bigrams bg'" "succ_rel bg' = succ_rel bg1 \<union> pairs_rel kw word rest"
    by auto
  show ?case
    using bg1 bg' by (auto simp: Un_assoc)
qed

lemma add_sequence_effect:
  assumes wf: "wf_bigrams bg" and oov: "OOV_TERM \<in> Domain (succ_rel bg)"
  shows "steps_to (add_sequence kw ws bg) (succ_rel bg \<union> seq_rel kw ws)"
proof (cases ws)
  case Nil
  then show ?thesis using wf by (simp add: add_sequence_def seq_rel_def steps_to_def)
next
  case (Cons first rest)
  let ?D = "set (disfluencies kw)"
  let ?R1 = "insert (OOV_TERM, first) (succ_rel bg)"
  let ?R2 = "?R1 \<union> (if disfluency kw then {OOV_TERM} \<times> ?D \<union> ?D \<times> {first, OOV_TERM} else {})"
  have s1: "steps_to (getitem_add OOV_TERM first bg) ?R1"
    by (rule getitem_add_effect [OF wf oov])
  have s2: "steps_to (if disfluency kw
                    then and_then (getitem_update OOV_TERM (disfluencies kw) b)
                           (start_disfluencies (disfluencies kw) first)
                    else Inr b) ?R2"
    if b: "wf_bigrams b" "succ_rel b = ?R1" for b
  proof (cases "disfluency kw")
    case True
    have "OOV_TERM \<in> Domain (succ_rel b)" using b by auto
    from getitem_update_effect [OF b(1) this]
    have "steps_to (getitem_update OOV_TERM (disfluencies kw) b) (succ_rel b \<union> {OOV_TERM} \<times> ?D)" .
    then have "steps_to (and_then (getitem_update OOV_TERM (disfluencies kw) b)
                           (start_disfluencies (disfluencies kw) first)) ?R2"
    proof (rule steps_to_and_then)
      fix b' assume b': "wf_bigrams b'" "succ_rel b' = succ_rel b \<union> {OOV_TERM} \<times> ?D"
      have "succ_rel b' \<union> ?D \<times> {first, OOV_TERM} = ?R2"
        using True b b' by auto
      with start_disfluencies_effect [OF b'(1), of "disfluencies kw" first]
      show "steps_to (start_disfluencies (disfluencies kw) first b') ?R2"
        by simp
    qed
    then show ?thesis using True by simp
  next
    case False
    then show ?thesis using b by (simp add: steps_to_def)
  qed
  have s3: "steps_to (and_then (walk_pairs kw rest first b) (\<lambda>(prev_word, bg).
          Inr (setdefault_add prev_word OOV_TERM bg))) (succ_rel bg \<union> seq_rel kw (first # rest))"
    if b: "wf_bigrams b" "succ_rel b = ?R2" for b
  proof -
    have "disfluency kw \<Longrightarrow> ?D \<subseteq> Domain (succ_rel b)"
      using b by auto
    from walk_pairs_effect [OF b(1) this, of rest first]
    obtain b' where b': "walk_pairs kw rest first b = Inr (last (first # rest), b')"
        "wf_bigrams b'" "succ_rel b' = succ_rel b \<union> pairs_rel kw first rest"
      by auto
    have "insert (last (first # rest), OOV_TERM) (succ_rel b')
        = succ_rel bg \<union> seq_rel kw (first # rest)"
      using b b' by (auto simp: seq_rel_def)
    with setdefault_add_effect [OF b'(2), of "last (first # rest)" OOV_TERM]
    show ?thesis
      by (simp add: b'(1) and_then_def steps_to_def)
  qed
  show ?thesis
    unfolding add_sequence_def Cons list.case
    by (rule steps_to_and_then [OF s1], rule steps_to_and_then [OF s2], assumption+, rule s3)
qed

lemma build_bigrams_effect:
  assumes "wf_bigrams bg" and "OOV_TERM \<in> Domain (succ_rel bg)"
  shows "steps_to (build_bigrams kw seqs bg) (succ_rel bg \<union> seqs_rel kw seqs)"
  using assms
proof (induction seqs arbitrary: bg)
  case Nil
  then show ?case by (simp add: steps_to_def seqs_rel_def)
next
  case (Cons ws seqs)
  have "steps_to (build_bigrams kw (ws # seqs) bg)
      (succ_rel bg \<union> seq_rel kw ws \<union> seqs_rel kw seqs)"
    unfolding build_bigrams.simps
  proof (rule steps_to_case [OF add_sequence_effect [OF Cons.prems]])
    fix b assume b: "wf_bigrams b" "succ_rel b = succ_rel bg \<union> seq_rel kw ws"
    have "OOV_TERM \<in> Domain (succ_rel b)" using Cons.prems(2) b by auto
    from Cons.IH [OF b(1) this] show "steps_to (build_bigrams kw seqs b)
        (succ_rel bg \<union> seq_rel kw ws \<union> seqs_rel kw seqs)"
      by (simp add: b)
  qed
  moreover have "succ_rel bg \<union> seq_rel kw ws \<union> seqs_rel kw seqs
      = succ_rel bg \<union> seqs_rel kw (ws # seqs)"
    by (auto simp: seqs_rel_def)
  ultimately show ?case by simp
qed

lemma initial_bigrams:
  "wf_bigrams [(OOV_TERM, {OOV_TERM})]"
  "succ_rel [(OOV_TERM, {OOV_TERM})] = {(OOV_TERM, OOV_TERM)}"
  by (auto simp: wf_bigrams_def succ_rel_def split: if_splits)

lemma build_bigrams_total:
  "steps_to (build_bigrams kw seqs [(OOV_TERM, {OOV_TERM})])
     (insert (OOV_TERM, OOV_TERM) (seqs_rel kw seqs))"
  using build_bigrams_effect [of "[(OOV_TERM, {OOV_TERM})]" kw seqs]
  by (simp add: initial_bigrams)

subsection \<open>The node ids and the emitted lines\<close>

lemma update_append:
  "k \<notin> fst ` set al \<Longrightarrow> AList.update k v al = al @ [(k, v)]"
  by (induction al) auto

lemma get_node_id_effect:
  assumes ok: "ids_ok ids" and get: "get_node_id w ids = (i, ids')"
  shows "ids_ok ids' \<and> map_of ids \<subseteq>\<^sub>m map_of ids' \<and> map_of ids' w = Some i
      \<and> fst ` set ids' = insert w (fst ` set ids)"
proof (cases "map_of ids w")
  case None
  then have notin: "w \<notin> fst ` set ids"
    by (simp add: map_of_eq_None_iff)
  from get None have i: "i = length ids + 1" and ids': "ids' = ids @ [(w, length ids + 1)]"
    by (auto simp: get_node_id_def update_append [OF notin])
  have "ids_ok ids'"
    using ok notin by (simp add: ids_ok_def ids')
  moreover have "map_of ids \<subseteq>\<^sub>m map_of ids'"
    using None by (auto simp: map_le_def ids' map_add_def dom_def split: option.splits)
  moreover have "map_of ids' w = Some i"
    using None by (simp add: ids' i map_add_def)
  moreover have "fst ` set ids' = insert w (fst ` set ids)"
    by (auto simp: ids')
  ultimately show ?thesis by simp
next
  case (Some j)
  from get Some have "i = j" and "ids' = ids"
    by (auto simp: get_node_id_def update_triv)
  moreover have "w \<in> fst ` set ids"
    using Some by (metis map_of_eq_None_iff option.distinct(1))
  ultimately show ?thesis using ok Some by auto
qed

lemma emit_successors_effect:
  assumes "ids_ok ids" and "emit_successors from_id weight ss ids out = (ids', out')"
  shows "ids_ok ids' \<and> map_of ids \<subseteq>\<^sub>m map_of ids'
      \<and> fst ` set ids' = fst ` set ids \<union> set ss
      \<and> (\<forall>m. map_of ids' \<subseteq>\<^sub>m m \<longrightarrow>
             out' = out @ map (\<lambda>s. (from_id, the (m s), s, s, weight)) ss)"
  using assms
proof (induction ss arbitrary: ids out)
  case Nil
  then show ?case by simp
next
  case (Cons to_word rest)
  obtain to_id ids1 where g: "get_node_id to_word ids = (to_id, ids1)"
    by (cases "get_node_id to_word ids")
  note e1 = get_node_id_effect [OF Cons.prems(1) g]
  from Cons.prems(2) g have rec: "emit_successors from_id weight rest ids1
      (out @ [(from_id, to_id, to_word, to_word, weight)]) = (ids', out')"
    by simp
  from e1 have ok1: "ids_ok ids1" by simp
  note e2 = Cons.IH [OF ok1 rec]
  have le: "map_of ids \<subseteq>\<^sub>m map_of ids'"
    using e1 e2 by (blast intro: map_le_trans)
  have keys: "fst ` set ids' = fst ` set ids \<union> set (to_word # rest)"
    using e1 e2 by auto
  have lines: "out' = out @ map (\<lambda>s. (from_id, the (m s), s, s, weight)) (to_word # rest)"
    if m: "map_of ids' \<subseteq>\<^sub>m m" for m
  proof -
    have "map_of ids1 \<subseteq>\<^sub>m m"
      using e2 m by (blast intro: map_le_trans)
    with e1 have "m to_word = Some to_id"
      by (auto simp: map_le_def dom_def)
    with e2 m show ?thesis by simp
  qed
  show ?case using e2 le keys lines by blast
qed

lemma emit_nodes_effect:
  assumes "ids_ok ids" and wf: "wf_bigrams bg" and "set keys \<subseteq> fst ` set bg"
  shows "\<exists>ids' out'. emit_nodes bg keys ids out = Inr (ids', out') \<and> ids_ok ids'
      \<and> map_of ids \<subseteq>\<^sub>m map_of ids'
      \<and> fst ` set ids' = fst ` set ids \<union> set keys \<union> succ_rel bg `` set keys
      \<and> (\<forall>m. map_of ids' \<subseteq>\<^sub>m m \<longrightarrow> out' = out @ concat (map (node_lines m bg) keys))"
  using assms(1,3)
proof (induction keys arbitrary: ids out)
  case Nil
  then show ?case by simp
next
  case (Cons from_word rest)
  obtain from_id ids1 where g: "get_node_id from_word ids = (from_id, ids1)"
    by (cases "get_node_id from_word ids")
  note e1 = get_node_id_effect [OF Cons.prems(1) g]
  from e1 have le1: "map_of ids \<subseteq>\<^sub>m map_of ids1" by simp
  from e1 have id1: "map_of ids1 from_word = Some from_id" by simp
  from e1 have keys1: "fst ` set ids1 = insert from_word (fst ` set ids)" by simp
  from Cons.prems(2) have "from_word \<in> fst ` set bg" by simp
  then have "map_of bg from_word \<noteq> None"
    by (simp add: map_of_eq_None_iff)
  then obtain S where S: "map_of bg from_word = Some S" by auto
  have fin: "finite S" using wf S by (auto simp: wf_bigrams_def)
  obtain ids2 out2 where s: "emit_successors from_id (weight_of S) (sorted_list_of_set S) ids1 out
      = (ids2, out2)"
    by (cases "emit_successors from_id (weight_of S) (sorted_list_of_set S) ids1 out")
  from e1 have ok1: "ids_ok ids1" by simp
  note e2 = emit_successors_effect [OF ok1 s]
  from e2 have ok2: "ids_ok ids2" by simp
  from e2 have le2: "map_of ids1 \<subseteq>\<^sub>m map_of ids2" by simp
  from e2 have keys2: "fst ` set ids2 = fst ` set ids1 \<union> set (sorted_list_of_set S)" by simp
  from e2 have lines2: "out2 = out @ map (\<lambda>s. (from_id, the (m s), s, s, weight_of S))
        (sorted_list_of_set S)" if "map_of ids2 \<subseteq>\<^sub>m m" for m
    using that by simp
  from Cons.prems(2) have sub: "set rest \<subseteq> fst ` set bg" by simp
  from Cons.IH [OF ok2 sub, of out2]
  obtain ids' out' where IH: "emit_nodes bg rest ids2 out2 = Inr (ids', out') \<and> ids_ok ids'
      \<and> map_of ids2 \<subseteq>\<^sub>m map_of ids'
      \<and> fst ` set ids' = fst ` set ids2 \<union> set rest \<union> succ_rel bg `` set rest
      \<and> (\<forall>m. map_of ids' \<subseteq>\<^sub>m m \<longrightarrow> out' = out2 @ concat (map (node_lines m bg) rest))"
    by (elim exE) (erule that)
  from IH have rec: "emit_nodes bg rest ids2 out2 = Inr (ids', out')" by simp
  from IH have ok': "ids_ok ids'" by simp
  from IH have le': "map_of ids2 \<subseteq>\<^sub>m map_of ids'" by simp
  from IH have keys': "fst ` set ids' = fst ` set ids2 \<union> set rest \<union> succ_rel bg `` set rest"
    by simp
  from IH have lines': "out' = out2 @ concat (map (node_lines m bg) rest)"
    if "map_of ids' \<subseteq>\<^sub>m m" for m
    using that by simp
  have run: "emit_nodes bg (from_word # rest) ids out = Inr (ids', out')"
    by (simp add: g S s rec)
  have le: "map_of ids \<subseteq>\<^sub>m map_of ids'"
    using le1 le2 le' by (meson map_le_trans)
  have img: "succ_rel bg `` {from_word} = S"
    using S by (auto simp: succ_rel_def)
  have keys: "fst ` set ids' = fst ` set ids \<union> set (from_word # rest)
      \<union> succ_rel bg `` set (from_word # rest)"
  proof -
    have "succ_rel bg `` set (from_word # rest) = S \<union> succ_rel bg `` set rest"
      using img by auto
    moreover have "fst ` set ids2 = insert from_word (fst ` set ids) \<union> S"
      using keys1 keys2 fin by simp
    ultimately show ?thesis
      by (simp add: keys' Un_ac)
  qed
  have lines: "out' = out @ concat (map (node_lines m bg) (from_word # rest))"
    if m: "map_of ids' \<subseteq>\<^sub>m m" for m
  proof -
    have m2: "map_of ids2 \<subseteq>\<^sub>m m"
      using le' m by (meson map_le_trans)
    then have "map_of ids1 \<subseteq>\<^sub>m m"
      using le2 by (meson map_le_trans)
    with id1 have "m from_word = Some from_id"
      by (auto simp: map_le_def dom_def)
    then have "node_lines m bg from_word
        = map (\<lambda>s. (from_id, the (m s), s, s, weight_of S)) (sorted_list_of_set S)"
      by (simp add: node_lines_def S)
    moreover have "out2 = out @ map (\<lambda>s. (from_id, the (m s), s, s, weight_of S))
        (sorted_list_of_set S)"
      by (rule lines2 [OF m2])
    ultimately show ?thesis
      using lines' [OF m] by simp
  qed
  show ?case
  proof (intro exI conjI allI impI)
    show "emit_nodes bg (from_word # rest) ids out = Inr (ids', out')" by (rule run)
    show "ids_ok ids'" by (rule ok')
    show "map_of ids \<subseteq>\<^sub>m map_of ids'" by (rule le)
    show "fst ` set ids' = fst ` set ids \<union> set (from_word # rest)
      \<union> succ_rel bg `` set (from_word # rest)" by (rule keys)
    show "out' = out @ concat (map (node_lines m bg) (from_word # rest))"
      if "map_of ids' \<subseteq>\<^sub>m m" for m
      using that by (rule lines)
  qed
qed

lemma ids_ok_Nil: "ids_ok []"
  by (simp add: ids_ok_def)

lemma bigram_lines_structure:
  "\<exists>bg ids. build_bigrams kw (normalise input) [(OOV_TERM, {OOV_TERM})] = Inr bg
      \<and> bigram_lines kw input =
        Inr (concat (map (node_lines (map_of ids) bg) (sort (map fst bg))), length ids)
      \<and> wf_bigrams bg
      \<and> succ_rel bg = insert (OOV_TERM, OOV_TERM) (seqs_rel kw (normalise input))
      \<and> ids_ok ids
      \<and> fst ` set ids = fst ` set bg \<union> Range (succ_rel bg)"
proof -
  from build_bigrams_total [of kw "normalise input"]
  obtain bg where bg: "build_bigrams kw (normalise input) [(OOV_TERM, {OOV_TERM})] = Inr bg"
    and wf: "wf_bigrams bg"
    and rel: "succ_rel bg = insert (OOV_TERM, OOV_TERM) (seqs_rel kw (normalise input))"
    unfolding steps_to_def by (elim exE conjE) (rule that)
  have "set (sort (map fst bg)) \<subseteq> fst ` set bg" by simp
  from emit_nodes_effect [OF ids_ok_Nil wf this, of "[]"]
  obtain ids out where E: "emit_nodes bg (sort (map fst bg)) [] [] = Inr (ids, out) \<and> ids_ok ids
      \<and> map_of ([]::node_ids) \<subseteq>\<^sub>m map_of ids
      \<and> fst ` set ids = fst ` set ([]::node_ids) \<union> set (sort (map fst bg))
            \<union> succ_rel bg `` set (sort (map fst bg))
      \<and> (\<forall>m. map_of ids \<subseteq>\<^sub>m m \<longrightarrow> out = [] @ concat (map (node_lines m bg) (sort (map fst bg))))"
    by (elim exE) (erule that)
  from E have run: "emit_nodes bg (sort (map fst bg)) [] [] = Inr (ids, out)" by simp
  from E have ok: "ids_ok ids" by simp
  from E have keys: "fst ` set ids = fst ` set bg \<union> succ_rel bg `` (fst ` set bg)" by simp
  from E have "map_of ids \<subseteq>\<^sub>m map_of ids \<longrightarrow>
      out = [] @ concat (map (node_lines (map_of ids) bg) (sort (map fst bg)))"
    by (elim conjE allE)
  then have out: "out = concat (map (node_lines (map_of ids) bg) (sort (map fst bg)))"
    by simp
  have "succ_rel bg `` Domain (succ_rel bg) = Range (succ_rel bg)"
    by auto
  then have "succ_rel bg `` (fst ` set bg) = Range (succ_rel bg)"
    by (simp only: domain_succ_rel [OF wf])
  with keys have keys2: "fst ` set ids = fst ` set bg \<union> Range (succ_rel bg)"
    by simp
  have res: "bigram_lines kw input =
        Inr (concat (map (node_lines (map_of ids) bg) (sort (map fst bg))), length ids)"
    by (simp add: bigram_lines_def and_then_def bg run out)
  show ?thesis
    by (intro exI [of _ bg] exI [of _ ids] conjI bg res wf rel ok keys2)
qed

subsection \<open>Every key is a successor and every successor is a key\<close>

lemma pair_rel_Range:
  "Range (pair_rel kw prev_word word) \<subseteq> insert word (insert OOV_TERM (dis_words kw))"
  by (auto simp: pair_rel_def dis_words_def split: if_splits)

lemma pair_rel_Domain:
  "Domain (pair_rel kw prev_word word) \<subseteq> insert prev_word (dis_words kw)"
  by (auto simp: pair_rel_def dis_words_def split: if_splits)

lemma pair_rel_mem: "(prev_word, word) \<in> pair_rel kw prev_word word"
  by (simp add: pair_rel_def)

lemma pairs_rel_Range_upper:
  "Range (pairs_rel kw prev_word rest) \<subseteq> set rest \<union> insert OOV_TERM (dis_words kw)"
proof (induction rest arbitrary: prev_word)
  case Nil
  then show ?case by simp
next
  case (Cons word rest)
  show ?case
    using pair_rel_Range [of kw prev_word word] Cons.IH [of word]
    by (auto simp: Range_Un_eq)
qed

lemma pairs_rel_Domain_upper:
  "Domain (pairs_rel kw prev_word rest) \<subseteq> insert prev_word (set rest) \<union> dis_words kw"
proof (induction rest arbitrary: prev_word)
  case Nil
  then show ?case by simp
next
  case (Cons word rest)
  show ?case
    using pair_rel_Domain [of kw prev_word word] Cons.IH [of word]
    by (auto simp: Domain_Un_eq)
qed

lemma pairs_rel_Range_lower:
  "set rest \<subseteq> Range (pairs_rel kw prev_word rest)"
proof (induction rest arbitrary: prev_word)
  case Nil
  then show ?case by simp
next
  case (Cons word rest)
  show ?case
    using pair_rel_mem [of prev_word word kw] Cons.IH [of word]
    by (auto simp: Range_Un_eq)
qed

lemma pairs_rel_Domain_lower:
  "insert prev_word (set rest) \<subseteq> insert (last (prev_word # rest)) (Domain (pairs_rel kw prev_word rest))"
proof (induction rest arbitrary: prev_word)
  case Nil
  then show ?case by simp
next
  case (Cons word rest)
  show ?case
    using pair_rel_mem [of prev_word word kw] Cons.IH [of word]
    by (auto simp: Domain_Un_eq)
qed

lemma seq_rel_Domain:
  "ws \<noteq> [] \<Longrightarrow> Domain (seq_rel kw ws) = insert OOV_TERM (set ws) \<union> dis_words kw"
proof (cases ws)
  case Nil
  assume "ws \<noteq> []"
  with Nil show ?thesis by simp
next
  case (Cons first rest)
  have mem: "last (first # rest) \<in> insert first (set rest)"
    using last_in_set [of "first # rest"] by simp
  show ?thesis
    using pairs_rel_Domain_upper [of kw first rest] pairs_rel_Domain_lower [of first rest kw] mem
    unfolding Cons seq_rel_def list.case
    by (auto simp: dis_words_def Domain_Un_eq split: if_splits)
qed

lemma seq_rel_Range:
  "ws \<noteq> [] \<Longrightarrow> Range (seq_rel kw ws) = insert OOV_TERM (set ws) \<union> dis_words kw"
proof (cases ws)
  case Nil
  assume "ws \<noteq> []"
  with Nil show ?thesis by simp
next
  case (Cons first rest)
  show ?thesis
    using pairs_rel_Range_upper [of kw first rest] pairs_rel_Range_lower [of rest kw first]
    unfolding Cons seq_rel_def list.case
    by (auto simp: dis_words_def Range_Un_eq split: if_splits)
qed

lemma seq_rel_Nil: "seq_rel kw [] = {}"
  by (simp add: seq_rel_def)

lemma seq_rel_Domain_Range: "Domain (seq_rel kw ws) = Range (seq_rel kw ws)"
  by (cases "ws = []") (simp_all add: seq_rel_Nil seq_rel_Domain seq_rel_Range)

lemma seqs_rel_Domain_Range: "Domain (seqs_rel kw seqs) = Range (seqs_rel kw seqs)"
proof -
  have "Domain (seqs_rel kw seqs) = (\<Union>ws \<in> set seqs. Domain (seq_rel kw ws))"
    by (auto simp: seqs_rel_def)
  also have "\<dots> = (\<Union>ws \<in> set seqs. Range (seq_rel kw ws))"
    by (simp add: seq_rel_Domain_Range)
  also have "\<dots> = Range (seqs_rel kw seqs)"
    by (auto simp: seqs_rel_def)
  finally show ?thesis .
qed

lemma total_rel_Domain_Range:
  "Domain (insert (OOV_TERM, OOV_TERM) (seqs_rel kw seqs))
     = Range (insert (OOV_TERM, OOV_TERM) (seqs_rel kw seqs))"
  by (simp add: seqs_rel_Domain_Range)

subsection \<open>The graph read back from the lines\<close>

lemma ids_ok_inj:
  assumes "ids_ok ids" and "map_of ids k = Some i" and "map_of ids k' = Some i"
  shows "k = k'"
proof -
  have "distinct (map snd ids)"
    using assms(1) by (simp add: ids_ok_def)
  then have inj: "inj_on snd (set ids)"
    by (simp add: distinct_map)
  have "(k, i) \<in> set ids" "(k', i) \<in> set ids"
    using assms(2,3) by (auto dest: map_of_SomeD)
  with inj_onD [OF inj, of "(k, i)" "(k', i)"] show ?thesis
    by simp
qed

lemma ids_ok_range:
  assumes "ids_ok ids"
  shows "snd ` set ids = {1..length ids}"
proof -
  have "snd ` set ids = set (map snd ids)" by simp
  also have "\<dots> = set [1..<Suc (length ids)]"
    using assms by (simp add: ids_ok_def)
  also have "\<dots> = {1..length ids}" by auto
  finally show ?thesis .
qed

lemma ids_ok_lookup:
  assumes "ids_ok ids" and "(k, i) \<in> set ids"
  shows "map_of ids k = Some i"
  using assms by (simp add: ids_ok_def)

lemma set_node_lines:
  assumes "wf_bigrams bg"
  shows "set (node_lines m bg k) =
     {(the (m k), the (m s), s, s, weight_of S) | s S. map_of bg k = Some S \<and> s \<in> S}"
proof (cases "map_of bg k")
  case None
  then show ?thesis by (simp add: node_lines_def)
next
  case (Some S)
  then have "finite S" using assms by (auto simp: wf_bigrams_def)
  then show ?thesis using Some by (auto simp: node_lines_def)
qed

lemma set_all_lines:
  assumes "wf_bigrams bg" and "set keys = fst ` set bg"
  shows "set (concat (map (node_lines m bg) keys)) =
     {(the (m k), the (m s), s, s, weight_of S) | k s S. map_of bg k = Some S \<and> s \<in> S}"
    (is "?L = ?R")
proof (rule set_eqI)
  fix x
  have key: "k \<in> set keys" if "map_of bg k = Some S" for k S
  proof -
    from that have "map_of bg k \<noteq> None" by simp
    then show ?thesis
      by (simp add: assms(2) map_of_eq_None_iff)
  qed
  have "x \<in> ?L \<longleftrightarrow> (\<exists>k \<in> set keys. x \<in> set (node_lines m bg k))"
    by simp
  also have "\<dots> \<longleftrightarrow> (\<exists>k \<in> set keys. \<exists>s S. x = (the (m k), the (m s), s, s, weight_of S)
      \<and> map_of bg k = Some S \<and> s \<in> S)"
    by (simp add: set_node_lines [OF assms(1)])
  also have "\<dots> \<longleftrightarrow> (\<exists>k s S. x = (the (m k), the (m s), s, s, weight_of S)
      \<and> map_of bg k = Some S \<and> s \<in> S)"
    using key by blast
  also have "\<dots> \<longleftrightarrow> x \<in> ?R"
    by simp
  finally show "x \<in> ?L \<longleftrightarrow> x \<in> ?R" .
qed

lemma set_word_edges:
  "set (word_edges ls) =
     {(u, v, weight). \<exists>from_id to_id v' from_id' u' weight'.
        (from_id, to_id, v, v', weight) \<in> set ls \<and> (from_id', from_id, u, u', weight') \<in> set ls}"
  unfolding word_edges_def by (auto, force)

lemma bigram_adjacency:
  "\<exists>lines n. bigram_lines kw input = Inr (lines, n)
     \<and> adjacency lines = insert (OOV_TERM, OOV_TERM) (seqs_rel kw (normalise input))"
proof -
  from bigram_lines_structure [of kw input]
  obtain bg ids where B: "build_bigrams kw (normalise input) [(OOV_TERM, {OOV_TERM})] = Inr bg
      \<and> bigram_lines kw input =
        Inr (concat (map (node_lines (map_of ids) bg) (sort (map fst bg))), length ids)
      \<and> wf_bigrams bg
      \<and> succ_rel bg = insert (OOV_TERM, OOV_TERM) (seqs_rel kw (normalise input))
      \<and> ids_ok ids
      \<and> fst ` set ids = fst ` set bg \<union> Range (succ_rel bg)"
    by (elim exE) (erule that)
  let ?m = "map_of ids"
  let ?lines = "concat (map (node_lines ?m bg) (sort (map fst bg)))"
  from B have res: "bigram_lines kw input = Inr (?lines, length ids)" by simp
  from B have wf: "wf_bigrams bg" by simp
  from B have rel: "succ_rel bg = insert (OOV_TERM, OOV_TERM) (seqs_rel kw (normalise input))"
    by simp
  from B have ok: "ids_ok ids" by simp
  from B have keys: "fst ` set ids = fst ` set bg \<union> Range (succ_rel bg)" by simp
  have dr: "Domain (succ_rel bg) = Range (succ_rel bg)"
    unfolding rel by (rule total_rel_Domain_Range)
  have dom_ids: "fst ` set ids = Domain (succ_rel bg)"
    using keys dr domain_succ_rel [OF wf] by simp
  have has_id: "\<exists>i. ?m k = Some i" if "k \<in> Domain (succ_rel bg)" for k
  proof -
    from that have "k \<in> fst ` set ids" by (simp add: dom_ids)
    then have "?m k \<noteq> None" by (simp add: map_of_eq_None_iff)
    then show ?thesis by auto
  qed
  have L: "set ?lines =
     {(the (?m k), the (?m s), s, s, weight_of S) | k s S. map_of bg k = Some S \<and> s \<in> S}"
    by (rule set_all_lines [OF wf]) simp
  have "adjacency ?lines = succ_rel bg"
  proof (rule set_eqI, clarify)
    fix u v
    show "(u, v) \<in> adjacency ?lines \<longleftrightarrow> (u, v) \<in> succ_rel bg"
    proof
      assume "(u, v) \<in> adjacency ?lines"
      then obtain weight where "(u, v, weight) \<in> set (word_edges ?lines)"
        by (auto simp: adjacency_def)
      then obtain from_id to_id v' from_id' u' weight' where
        l1: "(from_id, to_id, v, v', weight) \<in> set ?lines" and
        l2: "(from_id', from_id, u, u', weight') \<in> set ?lines"
        unfolding set_word_edges by blast
      from l1 obtain k S where k: "from_id = the (?m k)" "map_of bg k = Some S" "v \<in> S"
        unfolding L by blast
      from l2 obtain k' S' where k': "from_id = the (?m u)" "map_of bg k' = Some S'" "u \<in> S'"
        unfolding L by blast
      have kv: "(k, v) \<in> succ_rel bg"
        using k by (auto simp: succ_rel_def)
      have "(k', u) \<in> succ_rel bg"
        using k' by (auto simp: succ_rel_def)
      then have "u \<in> Domain (succ_rel bg)"
        unfolding dr by auto
      then obtain i where i: "?m u = Some i" using has_id by blast
      from kv have "k \<in> Domain (succ_rel bg)" by auto
      then obtain j where j: "?m k = Some j" using has_id by blast
      have "i = j" using k(1) k'(1) i j by simp
      with ids_ok_inj [OF ok i] j have "u = k" by simp
      with kv show "(u, v) \<in> succ_rel bg" by simp
    next
      assume uv: "(u, v) \<in> succ_rel bg"
      then obtain S where S: "map_of bg u = Some S" "v \<in> S"
        by (auto simp: succ_rel_def)
      from uv have "u \<in> Range (succ_rel bg)"
        unfolding dr [symmetric] by auto
      then obtain k' S' where S': "map_of bg k' = Some S'" "u \<in> S'"
        by (auto simp: succ_rel_def)
      have l1: "(the (?m u), the (?m v), v, v, weight_of S) \<in> set ?lines"
        unfolding L using S by blast
      have l2: "(the (?m k'), the (?m u), u, u, weight_of S') \<in> set ?lines"
        unfolding L using S' by blast
      from l1 l2 have "(u, v, weight_of S) \<in> set (word_edges ?lines)"
        unfolding set_word_edges by blast
      then show "(u, v) \<in> adjacency ?lines"
        by (force simp: adjacency_def)
    qed
  qed
  with res rel show ?thesis by simp
qed

lemma pairs_rel_plain:
  "\<not> conservative kw \<Longrightarrow> \<not> disfluency kw \<Longrightarrow>
   pairs_rel kw prev_word rest = set (zip (prev_word # rest) rest)"
  by (induction rest arbitrary: prev_word) (auto simp: pair_rel_def)

lemma seq_rel_plain:
  assumes "\<not> conservative kw" and "\<not> disfluency kw" and "ws \<noteq> []"
  shows "seq_rel kw ws = {(OOV_TERM, hd ws)} \<union> set (zip ws (tl ws)) \<union> {(last ws, OOV_TERM)}"
proof (cases ws)
  case Nil
  with assms(3) show ?thesis by simp
next
  case (Cons first rest)
  then show ?thesis
    using assms(1,2) by (simp add: seq_rel_def pairs_rel_plain)
qed

lemma seqs_rel_plain:
  assumes "\<not> conservative kw" and "\<not> disfluency kw"
  shows "insert (OOV_TERM, OOV_TERM) (seqs_rel kw seqs) = spec_successors seqs"
proof -
  have "seqs_rel kw seqs = (\<Union>ws \<in> {ws \<in> set seqs. ws \<noteq> []}. seq_rel kw ws)"
    by (auto simp: seqs_rel_def seq_rel_Nil)
  also have "\<dots> = (\<Union>ws \<in> {ws \<in> set seqs. ws \<noteq> []}.
      {(OOV_TERM, hd ws)} \<union> set (zip ws (tl ws)) \<union> {(last ws, OOV_TERM)})"
    using seq_rel_plain [OF assms] by simp
  finally have eq: "seqs_rel kw seqs = (\<Union>ws \<in> {ws \<in> set seqs. ws \<noteq> []}.
      {(OOV_TERM, hd ws)} \<union> set (zip ws (tl ws)) \<union> {(last ws, OOV_TERM)})" .
  have zip_nil: "set (zip ws (tl ws)) = {}" if "ws = []" for ws :: "string list"
    using that by simp
  show ?thesis
    unfolding eq spec_successors_def
    by (auto simp: zip_nil)
qed

subsection \<open>The text read back\<close>

text \<open>Cutting the text into lines and a line into fields.\<close>

lemma split_lines_not_Nil: "split_lines s \<noteq> []"
  by (induction s) (auto split: list.splits)

lemma split_lines_prefix:
  "CHR 0x0A \<notin> set a \<Longrightarrow> split_lines (a @ CHR 0x0A # rest) = a # split_lines rest"
  by (induction a) auto

lemma split_lines_single:
  "CHR 0x0A \<notin> set a \<Longrightarrow> split_lines a = [a]"
  by (induction a) auto

lemma split_lines_concat:
  assumes "\<And>l. l \<in> set ls \<Longrightarrow> CHR 0x0A \<notin> set (body l)"
  shows "split_lines (concat (map (\<lambda>l. body l @ [CHR 0x0A]) ls) @ rest)
           = map body ls @ split_lines rest"
  using assms
proof (induction ls)
  case Nil
  then show ?case by simp
next
  case (Cons l ls)
  have "CHR 0x0A \<notin> set (body l)" using Cons.prems by simp
  from split_lines_prefix [OF this]
  show ?case using Cons by simp
qed

lemma fields_from_plain:
  "list_all (\<lambda>c. \<not> is_blank c) a \<Longrightarrow> fields_from cur (a @ rest) = fields_from (cur @ a) rest"
  by (induction a arbitrary: cur) auto

lemma fields_from_blanks:
  "list_all is_blank bs \<Longrightarrow> fields_from [] (bs @ rest) = fields_from [] rest"
  by (induction bs) auto

lemma fields_field:
  assumes "a \<noteq> []" and "list_all (\<lambda>c. \<not> is_blank c) a"
  shows "line_fields (a @ ''    '' @ rest) = a # line_fields rest"
proof -
  have "line_fields (a @ ''    '' @ rest) = fields_from a (''    '' @ rest)"
    unfolding line_fields_def using fields_from_plain [OF assms(2), of "[]"] by simp
  also have "\<dots> = a # fields_from [] (''   '' @ rest)"
    using assms(1) by (simp add: is_blank_def)
  also have "\<dots> = a # fields_from [] rest"
    using fields_from_blanks [of "''   ''" rest] by (simp add: is_blank_def)
  finally show ?thesis by (simp add: line_fields_def)
qed

lemma fields_field_Cons:
  assumes "a \<noteq> []" and "list_all (\<lambda>c. \<not> is_blank c) a"
  shows "line_fields (a @ CHR '' '' # CHR '' '' # CHR '' '' # CHR '' '' # rest) = a # line_fields rest"
  using fields_field [OF assms, of rest] by simp

lemma fields_last:
  assumes "a \<noteq> []" and "list_all (\<lambda>c. \<not> is_blank c) a"
  shows "line_fields a = [a]"
  unfolding line_fields_def using fields_from_plain [OF assms(2), of "[]" "[]"] assms(1) by simp

text \<open>The decimal text of a node id reads back as the id.\<close>

lemma less_ten_cases:
  "d < 10 \<Longrightarrow> d = 0 \<or> d = 1 \<or> d = 2 \<or> d = 3 \<or> d = 4 \<or> d = 5 \<or> d = 6 \<or> d = 7 \<or> d = 8
     \<or> d = (9::nat)"
  by arith

lemma digit_value_digit:
  assumes "d < 10"
  shows "digit_value (digit d) = Some d"
  using less_ten_cases [OF assms] by (elim disjE) (simp_all add: digit_def digit_value_def)

lemma digit_plain:
  assumes "d < 10"
  shows "\<not> is_blank (digit d) \<and> digit d \<noteq> CHR 0x0A"
  using less_ten_cases [OF assms] by (elim disjE) (simp_all add: digit_def is_blank_def)

lemma show_nat_not_Nil: "show_nat n \<noteq> []"
  by (subst show_nat.simps) simp

lemma show_nat_plain: "plain_text (show_nat n)"
  unfolding plain_text_def
proof (induction n rule: show_nat.induct)
  case (1 n)
  show ?case
  proof (cases "n < 10")
    case True
    then show ?thesis
      using digit_plain [of n] by (subst show_nat.simps) simp
  next
    case False
    have "n mod 10 < 10" by simp
    from digit_plain [OF this] "1.IH" [OF False] show ?thesis
      using False by (subst show_nat.simps) simp
  qed
qed

lemma digits_value_show_nat:
  "digits_value (show_nat n) (Some 0) = Some n"
proof (induction n rule: show_nat.induct)
  case (1 n)
  show ?case
  proof (cases "n < 10")
    case True
    then show ?thesis
      using digit_value_digit [of n] by (subst show_nat.simps) (simp add: digits_value_def)
  next
    case False
    have "n mod 10 < 10" by simp
    from digit_value_digit [OF this] "1.IH" [OF False] show ?thesis
      using False by (subst show_nat.simps) (simp add: digits_value_def)
  qed
qed

lemma parse_nat_show_nat: "parse_nat (show_nat n) = Some n"
  using digits_value_show_nat [of n] show_nat_not_Nil [of n]
  by (simp add: parse_nat_def)

lemma plain_no_blank: "plain_text a \<Longrightarrow> list_all (\<lambda>c. \<not> is_blank c) a"
  by (simp add: plain_text_def list_all_iff)

lemma plain_no_newline: "plain_text a \<Longrightarrow> CHR 0x0A \<notin> set a"
  by (auto simp: plain_text_def list_all_iff)

lemma fields_plain_text:
  assumes "plain_text a"
  shows "length (line_fields a) \<le> 1"
proof (cases "a = []")
  case True
  then show ?thesis by (simp add: line_fields_def)
next
  case False
  from fields_last [OF False plain_no_blank [OF assms]] show ?thesis by simp
qed

lemma format_line_body: "format_line percent_f l = line_body percent_f l @ [CHR 0x0A]"
  by (simp add: format_line_def line_body_def split: prod.splits)

lemma parse_arc_body:
  assumes "plain_word w_in" and "plain_word w_out" and "plain_text (percent_f weight)"
  shows "parse_arc (line_body percent_f (from_id, to_id, w_in, w_out, weight))
           = Some (from_id, to_id, w_in, w_out)"
proof -
  have "line_fields (line_body percent_f (from_id, to_id, w_in, w_out, weight))
      = show_nat from_id # show_nat to_id # w_in # w_out # line_fields (percent_f weight)"
    using assms(1,2) show_nat_not_Nil show_nat_plain
    by (simp add: line_body_def fields_field_Cons plain_no_blank plain_word_def)
  then show ?thesis
    using fields_plain_text [OF assms(3)]
    by (simp add: parse_arc_def parse_nat_show_nat)
qed

lemma line_body_no_newline:
  assumes "plain_word w_in" and "plain_word w_out" and "plain_text (percent_f weight)"
  shows "CHR 0x0A \<notin> set (line_body percent_f (from_id, to_id, w_in, w_out, weight))"
  using assms plain_no_newline [OF show_nat_plain]
  by (auto simp: line_body_def plain_word_def dest: plain_no_newline)

lemma parse_arc_final: "parse_arc (show_nat n @ ''    0'') = None"
proof -
  have "line_fields (show_nat n @ ''    '' @ ''0'') = show_nat n # line_fields ''0''"
    by (rule fields_field [OF show_nat_not_Nil plain_no_blank [OF show_nat_plain]])
  then have "line_fields (show_nat n @ ''    0'') = [show_nat n, ''0'']"
    by (simp add: line_fields_def is_blank_def)
  then show ?thesis by (simp add: parse_arc_def)
qed

lemma parse_arc_empty: "parse_arc [] = None"
  by (simp add: parse_arc_def line_fields_def)

text \<open>
  The arcs read back from the text are the lines of the builder, when the labels on the
  lines and the text of each weight hold no space, tab or newline.
\<close>

lemma set_arc_adjacency:
  "arc_adjacency arcs =
     {(u, v). \<exists>from_id to_id v' from_id' u'.
        (from_id, to_id, v, v') \<in> set arcs \<and> (from_id', from_id, u, u') \<in> set arcs}"
  unfolding arc_adjacency_def by (auto, force)

lemma set_drop_weight:
  "(from_id, to_id, w_in, w_out) \<in> set (map drop_weight ls)
     \<longleftrightarrow> (\<exists>weight. (from_id, to_id, w_in, w_out, weight) \<in> set ls)"
proof
  assume "(from_id, to_id, w_in, w_out) \<in> set (map drop_weight ls)"
  then obtain l where l: "l \<in> set ls" "drop_weight l = (from_id, to_id, w_in, w_out)"
    by auto
  obtain a b c d e where "l = (a, b, c, d, e)" by (cases l)
  with l show "\<exists>weight. (from_id, to_id, w_in, w_out, weight) \<in> set ls"
    by (auto simp: drop_weight_def)
next
  assume "\<exists>weight. (from_id, to_id, w_in, w_out, weight) \<in> set ls"
  then obtain weight where "(from_id, to_id, w_in, w_out, weight) \<in> set ls" ..
  then have "drop_weight (from_id, to_id, w_in, w_out, weight) \<in> drop_weight ` set ls"
    by (rule imageI)
  then show "(from_id, to_id, w_in, w_out) \<in> set (map drop_weight ls)"
    by (simp add: drop_weight_def)
qed

lemma set_adjacency:
  "adjacency ls =
     {(u, v). \<exists>from_id to_id v' weight from_id' u' weight'.
        (from_id, to_id, v, v', weight) \<in> set ls \<and> (from_id', from_id, u, u', weight') \<in> set ls}"
proof (rule set_eqI, clarify)
  fix u v
  have "(u, v) \<in> adjacency ls \<longleftrightarrow> (\<exists>weight. (u, v, weight) \<in> set (word_edges ls))"
    unfolding adjacency_def by force
  also have "\<dots> \<longleftrightarrow> (\<exists>from_id to_id v' weight from_id' u' weight'.
        (from_id, to_id, v, v', weight) \<in> set ls \<and> (from_id', from_id, u, u', weight') \<in> set ls)"
    unfolding set_word_edges by blast
  finally show "(u, v) \<in> adjacency ls \<longleftrightarrow> (u, v) \<in> {(u, v). \<exists>from_id to_id v' weight from_id' u' weight'.
        (from_id, to_id, v, v', weight) \<in> set ls \<and> (from_id', from_id, u, u', weight') \<in> set ls}"
    by simp
qed

lemma arc_adjacency_lines: "arc_adjacency (map drop_weight ls) = adjacency ls"
  unfolding set_arc_adjacency set_adjacency set_drop_weight by blast

lemma map_filter_bodies:
  assumes "\<And>l. l \<in> set ls \<Longrightarrow> parse_arc (body l) = Some (drop_weight l)"
  shows "List.map_filter parse_arc (map body ls @ rest) = map drop_weight ls @ List.map_filter parse_arc rest"
  using assms by (induction ls) (simp_all add: List.map_filter_simps)

lemma parse_fst_text:
  assumes labels: "\<And>from_id to_id w_in w_out weight.
      (from_id, to_id, w_in, w_out, weight) \<in> set ls \<Longrightarrow> plain_word w_in \<and> plain_word w_out"
    and pf: "\<And>weight. plain_text (percent_f weight)"
  shows "parse_fst (concat (map (format_line percent_f) ls) @ show_nat n @ ''    0'' @ [CHR 0x0A])
           = map drop_weight ls"
proof -
  have fmt: "format_line percent_f = (\<lambda>l. line_body percent_f l @ [CHR 0x0A])"
    by (rule ext) (rule format_line_body)
  have nl: "CHR 0x0A \<notin> set (line_body percent_f l)" if "l \<in> set ls" for l
  proof -
    obtain from_id to_id w_in w_out weight where l: "l = (from_id, to_id, w_in, w_out, weight)"
      by (cases l)
    from labels [of from_id to_id w_in w_out weight] that
    have "plain_word w_in" "plain_word w_out" unfolding l by simp_all
    then show ?thesis unfolding l by (rule line_body_no_newline) (rule pf)
  qed
  have arc: "parse_arc (line_body percent_f l) = Some (drop_weight l)" if "l \<in> set ls" for l
  proof -
    obtain from_id to_id w_in w_out weight where l: "l = (from_id, to_id, w_in, w_out, weight)"
      by (cases l)
    from labels [of from_id to_id w_in w_out weight] that
    have "plain_word w_in" "plain_word w_out" unfolding l by simp_all
    from parse_arc_body [OF this pf] show ?thesis
      unfolding l by (simp add: drop_weight_def)
  qed
  have last_line: "split_lines (show_nat n @ ''    0'' @ [CHR 0x0A]) = [show_nat n @ ''    0'', []]"
  proof -
    have "CHR 0x0A \<notin> set (show_nat n @ ''    0'')"
      using plain_no_newline [OF show_nat_plain, of n] by simp
    from split_lines_prefix [OF this, of "[]"] show ?thesis by simp
  qed
  have "split_lines (concat (map (format_line percent_f) ls) @ show_nat n @ ''    0'' @ [CHR 0x0A])
      = map (line_body percent_f) ls @ [show_nat n @ ''    0'', []]"
    unfolding fmt using split_lines_concat [of ls "line_body percent_f", OF nl] last_line
    by simp
  then show ?thesis
    unfolding parse_fst_def
    using map_filter_bodies [of ls "line_body percent_f", OF arc]
    by (simp add: List.map_filter_simps parse_arc_final parse_arc_empty)
qed

lemma spec_successors_Range:
  "Range (spec_successors wss) \<subseteq> insert OOV_TERM (\<Union>ws \<in> set wss. set ws)"
proof
  fix word assume "word \<in> Range (spec_successors wss)"
  then obtain prev where "(prev, word) \<in> spec_successors wss" by auto
  then consider "word = OOV_TERM"
    | ws where "ws \<in> set wss" "ws \<noteq> []" "word = hd ws"
    | ws where "ws \<in> set wss" "(prev, word) \<in> set (zip ws (tl ws))"
    unfolding spec_successors_def by auto
  then show "word \<in> insert OOV_TERM (\<Union>ws \<in> set wss. set ws)"
  proof cases
    case 1
    then show ?thesis by simp
  next
    case 2
    then have "word \<in> set ws" by simp
    with 2(1) show ?thesis by auto
  next
    case 3
    from 3(2) have "word \<in> set (tl ws)" by (rule set_zip_rightD)
    then have "word \<in> set ws" by (cases ws) simp_all
    with 3(1) show ?thesis by auto
  qed
qed

lemma plain_word_OOV_TERM: "plain_word OOV_TERM"
  by (simp add: plain_word_def plain_text_def OOV_TERM_def is_blank_def)

lemma bigram_lines_labels:
  "\<exists>lines n. bigram_lines kw input = Inr (lines, n)
     \<and> adjacency lines = insert (OOV_TERM, OOV_TERM) (seqs_rel kw (normalise input))
     \<and> (\<forall>from_id to_id w_in w_out weight. (from_id, to_id, w_in, w_out, weight) \<in> set lines \<longrightarrow>
           w_out = w_in
         \<and> w_in \<in> Range (insert (OOV_TERM, OOV_TERM) (seqs_rel kw (normalise input))))"
proof -
  from bigram_lines_structure [of kw input]
  obtain bg ids where B: "build_bigrams kw (normalise input) [(OOV_TERM, {OOV_TERM})] = Inr bg
      \<and> bigram_lines kw input =
        Inr (concat (map (node_lines (map_of ids) bg) (sort (map fst bg))), length ids)
      \<and> wf_bigrams bg
      \<and> succ_rel bg = insert (OOV_TERM, OOV_TERM) (seqs_rel kw (normalise input))
      \<and> ids_ok ids
      \<and> fst ` set ids = fst ` set bg \<union> Range (succ_rel bg)"
    by (elim exE) (erule that)
  let ?m = "map_of ids"
  let ?lines = "concat (map (node_lines ?m bg) (sort (map fst bg)))"
  from B have res: "bigram_lines kw input = Inr (?lines, length ids)" by simp
  from B have wf: "wf_bigrams bg" by simp
  from B have rel: "succ_rel bg = insert (OOV_TERM, OOV_TERM) (seqs_rel kw (normalise input))"
    by simp
  have L: "set ?lines =
     {(the (?m k), the (?m s), s, s, weight_of S) | k s S. map_of bg k = Some S \<and> s \<in> S}"
    by (rule set_all_lines [OF wf]) simp
  from bigram_adjacency [of kw input] res
  have adj: "adjacency ?lines = insert (OOV_TERM, OOV_TERM) (seqs_rel kw (normalise input))"
    by simp
  have lab: "w_out = w_in \<and> w_in \<in> Range (succ_rel bg)"
    if "(from_id, to_id, w_in, w_out, weight) \<in> set ?lines" for from_id to_id w_in w_out weight
  proof -
    from that obtain k S where "map_of bg k = Some S" "w_in \<in> S" "w_out = w_in"
      unfolding L by blast
    then show ?thesis by (auto simp: succ_rel_def)
  qed
  then have labs: "\<forall>from_id to_id w_in w_out weight.
      (from_id, to_id, w_in, w_out, weight) \<in> set ?lines \<longrightarrow>
        w_out = w_in
      \<and> w_in \<in> Range (insert (OOV_TERM, OOV_TERM) (seqs_rel kw (normalise input)))"
    unfolding rel by blast
  show ?thesis
    by (intro exI [of _ ?lines] exI [of _ "length ids"] conjI res adj labs)
qed

text \<open>
  Claim C2, for words that the text format can carry. For a non-empty list of word
  sequences whose words are non-empty and hold no space, tab or newline, without the
  conservative and disfluency flags, and with weights whose \<open>%f\<close> text holds no space, tab
  or newline (as that of Python does), the builder returns a text; the arcs parsed from
  this text are the lines that the builder emitted, each without its weight; and the
  adjacency relation of the parsed arcs is exactly the successor relation of section
  4.1, steps 1 to 4: no edge is missing and none is extra.
\<close>

theorem C2_parsed_adjacency_amended:
  assumes "wss \<noteq> []"
    and "list_all (list_all plain_word) wss"
    and "\<forall>weight. plain_text (percent_f weight)"
  shows "\<exists>lines n text.
     bigram_lines \<lparr>conservative = False, disfluency = False, disfluencies = ds\<rparr> (Nested wss)
       = Inr (lines, n)
     \<and> make_bigram_lm_fst percent_f
         \<lparr>conservative = False, disfluency = False, disfluencies = ds\<rparr> (Nested wss) = Inr text
     \<and> parse_fst text = map drop_weight lines
     \<and> parsed_adjacency text = spec_successors wss"
proof -
  let ?kw = "\<lparr>conservative = False, disfluency = False, disfluencies = ds\<rparr>"
  have norm: "normalise (Nested wss) = wss"
    using assms(1) by (cases wss) simp_all
  have spec: "insert (OOV_TERM, OOV_TERM) (seqs_rel ?kw wss) = spec_successors wss"
    by (rule seqs_rel_plain) simp_all
  from bigram_lines_labels [of ?kw "Nested wss"]
  obtain lines n where All: "bigram_lines ?kw (Nested wss) = Inr (lines, n)
     \<and> adjacency lines = insert (OOV_TERM, OOV_TERM) (seqs_rel ?kw (normalise (Nested wss)))
     \<and> (\<forall>from_id to_id w_in w_out weight. (from_id, to_id, w_in, w_out, weight) \<in> set lines \<longrightarrow>
           w_out = w_in
         \<and> w_in \<in> Range (insert (OOV_TERM, OOV_TERM) (seqs_rel ?kw (normalise (Nested wss)))))"
    by (elim exE) (erule that)
  from All have res: "bigram_lines ?kw (Nested wss) = Inr (lines, n)" by simp
  from All have adj: "adjacency lines = spec_successors wss"
    unfolding norm spec by simp
  from All have lab: "w_out = w_in \<and> w_in \<in> Range (spec_successors wss)"
    if "(from_id, to_id, w_in, w_out, weight) \<in> set lines" for from_id to_id w_in w_out weight
    using that unfolding norm spec by blast
  have words: "plain_word w" if "w \<in> (\<Union>ws \<in> set wss. set ws)" for w
    using assms(2) that by (auto simp: list_all_iff)
  have plain: "plain_word w_in \<and> plain_word w_out"
    if l: "(from_id, to_id, w_in, w_out, weight) \<in> set lines" for from_id to_id w_in w_out weight
  proof -
    from lab [OF l] have eq: "w_out = w_in" and "w_in \<in> Range (spec_successors wss)"
      by simp_all
    with spec_successors_Range [of wss]
    have "w_in = OOV_TERM \<or> w_in \<in> (\<Union>ws \<in> set wss. set ws)" by blast
    then have "plain_word w_in" using words plain_word_OOV_TERM by blast
    with eq show ?thesis by simp
  qed
  let ?text = "concat (map (format_line percent_f) lines) @ show_nat n @ ''    0'' @ [CHR 0x0A]"
  have out_eq: "make_bigram_lm_fst percent_f ?kw (Nested wss) = Inr ?text"
    by (simp add: make_bigram_lm_fst_def res and_then_def)
  have pf: "plain_text (percent_f weight)" for weight
    using assms(3) by simp
  have parsed: "parse_fst ?text = map drop_weight lines"
    by (rule parse_fst_text [OF plain pf])
  have padj: "parsed_adjacency ?text = spec_successors wss"
    by (simp only: parsed_adjacency_def parsed arc_adjacency_lines adj)
  show ?thesis
    by (intro exI [of _ lines] exI [of _ n] exI [of _ ?text] conjI res out_eq parsed padj)
qed

lemma two_sequences_lines:
  "bigram_lines \<lparr>conservative = False, disfluency = False, disfluencies = []\<rparr>
     (Nested [[''a'', ''b''], [''a'', ''c'']]) =
   Inr ([(1, 1, ''<unk>'', ''<unk>'', ln 2),
         (1, 2, ''a'', ''a'', ln 2),
         (2, 3, ''b'', ''b'', ln 2),
         (2, 4, ''c'', ''c'', ln 2),
         (3, 1, ''<unk>'', ''<unk>'', 0),
         (4, 1, ''<unk>'', ''<unk>'', 0)], 4)"
  by (simp add: bigram_eval ln_div)

lemma two_sequences_text:
  "make_bigram_lm_fst (\<lambda>weight. if weight = 0 then ''-0.000000'' else ''0.693147'')
     \<lparr>conservative = False, disfluency = False, disfluencies = []\<rparr>
     (Nested [[''a'', ''b''], [''a'', ''c'']]) =
   Inr (''1    1    <unk>    <unk>    0.693147'' @ [CHR 0x0A]
      @ ''1    2    a    a    0.693147'' @ [CHR 0x0A]
      @ ''2    3    b    b    0.693147'' @ [CHR 0x0A]
      @ ''2    4    c    c    0.693147'' @ [CHR 0x0A]
      @ ''3    1    <unk>    <unk>    -0.000000'' @ [CHR 0x0A]
      @ ''4    1    <unk>    <unk>    -0.000000'' @ [CHR 0x0A]
      @ ''4    0'' @ [CHR 0x0A])"
  by (simp add: make_bigram_lm_fst_def two_sequences_lines and_then_def format_line_def
      show_nat.simps digit_def)

text \<open>
  Claim C2 on \<open>[["a", "b"], ["a", "c"]]\<close>: the adjacency relation parsed from the seven
  lines of the text is the successor relation of the specification, with six edges.
\<close>

theorem C2_parsed_adjacency_amended_witness:
  "[[''a'', ''b''], [''a'', ''c'']] \<noteq> []
   \<and> list_all (list_all plain_word) [[''a'', ''b''], [''a'', ''c'']]
   \<and> parsed_adjacency (''1    1    <unk>    <unk>    0.693147'' @ [CHR 0x0A]
      @ ''1    2    a    a    0.693147'' @ [CHR 0x0A]
      @ ''2    3    b    b    0.693147'' @ [CHR 0x0A]
      @ ''2    4    c    c    0.693147'' @ [CHR 0x0A]
      @ ''3    1    <unk>    <unk>    -0.000000'' @ [CHR 0x0A]
      @ ''4    1    <unk>    <unk>    -0.000000'' @ [CHR 0x0A]
      @ ''4    0'' @ [CHR 0x0A]) = spec_successors [[''a'', ''b''], [''a'', ''c'']]
   \<and> spec_successors [[''a'', ''b''], [''a'', ''c'']] =
       {(''<unk>'', ''<unk>''), (''<unk>'', ''a''), (''a'', ''b''), (''a'', ''c''),
        (''b'', ''<unk>''), (''c'', ''<unk>'')}"
proof -
  let ?pf = "\<lambda>weight::real. if weight = 0 then ''-0.000000'' else ''0.693147''"
  have ne: "[[''a'', ''b''], [''a'', ''c'']] \<noteq> []" by simp
  have words: "list_all (list_all plain_word) [[''a'', ''b''], [''a'', ''c'']]"
    by (simp add: plain_word_def plain_text_def is_blank_def)
  have pf: "\<forall>weight. plain_text (?pf weight)"
    by (simp add: plain_text_def is_blank_def)
  from C2_parsed_adjacency_amended [OF ne words pf, of "[]"]
  have adj: "parsed_adjacency (''1    1    <unk>    <unk>    0.693147'' @ [CHR 0x0A]
      @ ''1    2    a    a    0.693147'' @ [CHR 0x0A]
      @ ''2    3    b    b    0.693147'' @ [CHR 0x0A]
      @ ''2    4    c    c    0.693147'' @ [CHR 0x0A]
      @ ''3    1    <unk>    <unk>    -0.000000'' @ [CHR 0x0A]
      @ ''4    1    <unk>    <unk>    -0.000000'' @ [CHR 0x0A]
      @ ''4    0'' @ [CHR 0x0A]) = spec_successors [[''a'', ''b''], [''a'', ''c'']]"
    using two_sequences_text by (elim exE conjE) simp
  have lines_adj: "adjacency [(1, 1, ''<unk>'', ''<unk>'', ln 2),
         (1, 2, ''a'', ''a'', ln 2),
         (2, 3, ''b'', ''b'', ln 2),
         (2, 4, ''c'', ''c'', ln 2),
         (3, 1, ''<unk>'', ''<unk>'', 0),
         (4, 1, ''<unk>'', ''<unk>'', 0)] =
       {(''<unk>'', ''<unk>''), (''<unk>'', ''a''), (''a'', ''b''), (''a'', ''c''),
        (''b'', ''<unk>''), (''c'', ''<unk>'')}"
    by (simp add: adjacency_def word_edges_def insert_commute)
  from bigram_adjacency [of "\<lparr>conservative = False, disfluency = False, disfluencies = []\<rparr>"
      "Nested [[''a'', ''b''], [''a'', ''c'']]"]
  have "adjacency [(1, 1, ''<unk>'', ''<unk>'', ln 2),
         (1, 2, ''a'', ''a'', ln 2),
         (2, 3, ''b'', ''b'', ln 2),
         (2, 4, ''c'', ''c'', ln 2),
         (3, 1, ''<unk>'', ''<unk>'', 0),
         (4, 1, ''<unk>'', ''<unk>'', 0)] =
      insert (OOV_TERM, OOV_TERM)
        (seqs_rel \<lparr>conservative = False, disfluency = False, disfluencies = []\<rparr>
          [[''a'', ''b''], [''a'', ''c'']])"
    by (simp add: two_sequences_lines)
  also have "\<dots> = spec_successors [[''a'', ''b''], [''a'', ''c'']]"
    by (rule seqs_rel_plain) simp_all
  finally have spec: "spec_successors [[''a'', ''b''], [''a'', ''c'']] =
       {(''<unk>'', ''<unk>''), (''<unk>'', ''a''), (''a'', ''b''), (''a'', ''c''),
        (''b'', ''<unk>''), (''c'', ''<unk>'')}"
    unfolding lines_adj by (rule sym)
  show ?thesis
    by (intro conjI ne words adj spec)
qed

text \<open>
  A word that is a single space. The builder writes it as it is, so the line from the
  node of a to the node of the space has three fields only and parses as no arc.
\<close>

lemma blank_word_lines:
  "bigram_lines \<lparr>conservative = False, disfluency = False, disfluencies = []\<rparr>
     (Nested [[''a'', '' '']]) =
   Inr ([(1, 2, ''<unk>'', ''<unk>'', 0),
         (2, 2, ''<unk>'', ''<unk>'', ln 2),
         (2, 3, ''a'', ''a'', ln 2),
         (3, 1, '' '', '' '', 0)], 3)"
  by (simp add: bigram_eval ln_div)

lemma blank_word_text:
  "make_bigram_lm_fst (\<lambda>weight. if weight = 0 then ''-0.000000'' else ''0.693147'')
     \<lparr>conservative = False, disfluency = False, disfluencies = []\<rparr>
     (Nested [[''a'', '' '']]) =
   Inr (''1    2    <unk>    <unk>    -0.000000'' @ [CHR 0x0A]
      @ ''2    2    <unk>    <unk>    0.693147'' @ [CHR 0x0A]
      @ ''2    3    a    a    0.693147'' @ [CHR 0x0A]
      @ ''3    1              -0.000000'' @ [CHR 0x0A]
      @ ''3    0'' @ [CHR 0x0A])"
  by (simp add: make_bigram_lm_fst_def blank_word_lines and_then_def format_line_def
      show_nat.simps digit_def)

lemma blank_word_split:
  "split_lines (''1    2    <unk>    <unk>    -0.000000'' @ [CHR 0x0A]
      @ ''2    2    <unk>    <unk>    0.693147'' @ [CHR 0x0A]
      @ ''2    3    a    a    0.693147'' @ [CHR 0x0A]
      @ ''3    1              -0.000000'' @ [CHR 0x0A]
      @ ''3    0'' @ [CHR 0x0A]) =
   [''1    2    <unk>    <unk>    -0.000000'',
    ''2    2    <unk>    <unk>    0.693147'',
    ''2    3    a    a    0.693147'',
    ''3    1              -0.000000'',
    ''3    0'', []]"
  by simp

lemma blank_word_fields:
  "map line_fields [''1    2    <unk>    <unk>    -0.000000'',
    ''2    2    <unk>    <unk>    0.693147'',
    ''2    3    a    a    0.693147'',
    ''3    1              -0.000000'',
    ''3    0'', []] =
   [[''1'', ''2'', ''<unk>'', ''<unk>'', ''-0.000000''],
    [''2'', ''2'', ''<unk>'', ''<unk>'', ''0.693147''],
    [''2'', ''3'', ''a'', ''a'', ''0.693147''],
    [''3'', ''1'', ''-0.000000''],
    [''3'', ''0''], []]"
  by (simp add: line_fields_def is_blank_def)

lemma blank_word_arcs:
  "parse_fst (''1    2    <unk>    <unk>    -0.000000'' @ [CHR 0x0A]
      @ ''2    2    <unk>    <unk>    0.693147'' @ [CHR 0x0A]
      @ ''2    3    a    a    0.693147'' @ [CHR 0x0A]
      @ ''3    1              -0.000000'' @ [CHR 0x0A]
      @ ''3    0'' @ [CHR 0x0A]) =
   [(1, 2, ''<unk>'', ''<unk>''), (2, 2, ''<unk>'', ''<unk>''), (2, 3, ''a'', ''a'')]"
  using blank_word_fields
  by (simp add: parse_fst_def blank_word_split List.map_filter_simps parse_arc_def
      parse_nat_def digits_value_def digit_value_def)

text \<open>
  Claim C2, as the specification states it, for every list of word sequences, fails on
  \<open>[["a", " "]]\<close>: the successor relation has the edge from a to the space, and the
  relation parsed from the text has only the edges from OOV to OOV and from OOV to a.
\<close>

theorem C2_parsed_adjacency_counterexample:
  "make_bigram_lm_fst (\<lambda>weight. if weight = 0 then ''-0.000000'' else ''0.693147'')
     \<lparr>conservative = False, disfluency = False, disfluencies = []\<rparr>
     (Nested [[''a'', '' '']]) =
   Inr (''1    2    <unk>    <unk>    -0.000000'' @ [CHR 0x0A]
      @ ''2    2    <unk>    <unk>    0.693147'' @ [CHR 0x0A]
      @ ''2    3    a    a    0.693147'' @ [CHR 0x0A]
      @ ''3    1              -0.000000'' @ [CHR 0x0A]
      @ ''3    0'' @ [CHR 0x0A])
   \<and> bigram_parsed_adjacency (\<lambda>weight. if weight = 0 then ''-0.000000'' else ''0.693147'')
       \<lparr>conservative = False, disfluency = False, disfluencies = []\<rparr>
       (Nested [[''a'', '' '']]) = {(''<unk>'', ''<unk>''), (''<unk>'', ''a'')}
   \<and> (''a'', '' '') \<in> spec_successors [[''a'', '' '']]
   \<and> bigram_parsed_adjacency (\<lambda>weight. if weight = 0 then ''-0.000000'' else ''0.693147'')
       \<lparr>conservative = False, disfluency = False, disfluencies = []\<rparr>
       (Nested [[''a'', '' '']]) \<noteq> spec_successors [[''a'', '' '']]"
proof -
  let ?pf = "\<lambda>weight::real. if weight = 0 then ''-0.000000'' else ''0.693147''"
  let ?kw = "\<lparr>conservative = False, disfluency = False, disfluencies = []\<rparr>"
  have parsed: "bigram_parsed_adjacency ?pf ?kw (Nested [[''a'', '' '']])
      = {(''<unk>'', ''<unk>''), (''<unk>'', ''a'')}"
    unfolding bigram_parsed_adjacency_def blank_word_text sum.case parsed_adjacency_def
      blank_word_arcs
    by (simp add: arc_adjacency_def)
  have spec: "(''a'', '' '') \<in> spec_successors [[''a'', '' '']]"
    by (simp add: spec_successors_def)
  have "(''a'', '' '') \<notin> bigram_parsed_adjacency ?pf ?kw (Nested [[''a'', '' '']])"
    unfolding parsed by simp
  with spec have ne: "bigram_parsed_adjacency ?pf ?kw (Nested [[''a'', '' '']])
      \<noteq> spec_successors [[''a'', '' '']]"
    by metis
  show ?thesis
    by (intro conjI blank_word_text parsed spec ne)
qed


subsection \<open>The weights at a node\<close>

lemma concat_single:
  "distinct xs \<Longrightarrow> x \<in> set xs \<Longrightarrow> concat (map (\<lambda>y. if y = x then g else []) xs) = g"
proof (induction xs)
  case Nil
  then show ?case by simp
next
  case (Cons a xs)
  show ?case
  proof (cases "a = x")
    case True
    then have "x \<notin> set xs" using Cons.prems(1) by simp
    then have "map (\<lambda>y. if y = x then g else []) xs = map (\<lambda>y. []) xs"
      by (intro map_cong) auto
    then show ?thesis using True by simp
  next
    case False
    then show ?thesis using Cons by simp
  qed
qed

lemma uniform_block:
  assumes fin: "finite S" and ne: "S \<noteq> {}" and inj: "inj_on f S"
  shows "(let out = map (\<lambda>s. (node, f s, s, s, weight_of S)) (sorted_list_of_set S);
              N = length out
          in 0 < N
             \<and> distinct (map (\<lambda>(from_id, to_id, w_in, w_out, weight). to_id) out)
             \<and> list_all (\<lambda>(from_id, to_id, w_in, w_out, weight). weight = - ln (1 / real N)) out
             \<and> sum_list (map (\<lambda>(from_id, to_id, w_in, w_out, weight). exp (- weight)) out) = 1)"
proof -
  let ?xs = "sorted_list_of_set S"
  have len: "length ?xs = card S" by simp
  have pos: "0 < card S" using fin ne by (simp add: card_gt_0_iff)
  have w: "weight_of S = - ln (1 / real (card S))"
    using pos by (simp add: weight_of_def)
  have d: "distinct (map f ?xs)"
    using inj fin by (simp add: distinct_map)
  have e: "exp (- weight_of S) = 1 / real (card S)"
    using pos by (simp add: w)
  have "sum_list (map (\<lambda>s. exp (- weight_of S)) ?xs) = real (length ?xs) * exp (- weight_of S)"
    by (simp add: sum_list_replicate map_replicate_const)
  also have "\<dots> = 1"
    using pos by (simp add: e)
  finally have s: "sum_list (map (\<lambda>s. exp (- weight_of S)) ?xs) = 1" .
  have nonempty: "?xs \<noteq> []"
    using fin ne by simp
  show ?thesis
    using pos d s nonempty by (simp add: Let_def comp_def list_all_iff w)
qed

lemma node_lines_from:
  assumes "l \<in> set (node_lines m bg k)"
  shows "fst l = the (m k)"
  using assms by (auto simp: node_lines_def split: option.splits)

lemma outgoing_fst: "outgoing ls node = filter (\<lambda>l. fst l = node) ls"
  unfolding outgoing_def by (rule filter_cong) auto

lemma seqs_rel_words:
  assumes "ws \<in> set seqs"
  shows "set ws \<subseteq> Domain (seqs_rel kw seqs)"
proof (cases "ws = []")
  case True
  then show ?thesis by simp
next
  case False
  have "set ws \<subseteq> Domain (seq_rel kw ws)"
    by (auto simp: seq_rel_Domain [OF False])
  moreover have "Domain (seq_rel kw ws) \<subseteq> Domain (seqs_rel kw seqs)"
    using assms by (auto simp: seqs_rel_def)
  ultimately show ?thesis by blast
qed

text \<open>
  Claim C6. For every input and all flags the builder returns. Let \<open>bg\<close> be the
  dictionary that lines 39 to 70 build from the input: its successor relation is the one
  the input determines, and OOV and every word of the input are keys. The nodes are the
  keys, numbered one to one by 1 to \<open>n\<close>, where \<open>n\<close> is the number of keys and the
  final state of the output. For every key \<open>k\<close> with successor set \<open>S\<close> (the set whose
  length line 84 takes), \<open>S\<close> has \<open>N = card S > 0\<close> members, the weight of line 84 is
  \<open>-ln (1/N)\<close>, and the lines that leave the node of \<open>k\<close> are exactly one line for
  each successor in sorted order, each with this weight, so that \<open>exp (-weight)\<close> sums
  to 1 over them. The weight for an empty successor set is 0 (line 86), which no key
  has. Every line runs between nodes in 1 to \<open>n\<close>. Weights are real numbers here.
\<close>

theorem C6_uniform_weights:
  "weight_of {} = 0
   \<and> (\<exists>bg node_of lines n.
        build_bigrams kw (normalise input) [(OOV_TERM, {OOV_TERM})] = Inr bg
      \<and> succ_rel bg = insert (OOV_TERM, OOV_TERM) (seqs_rel kw (normalise input))
      \<and> insert OOV_TERM (\<Union>ws \<in> set (normalise input). set ws) \<subseteq> fst ` set bg
      \<and> bigram_lines kw input = Inr (lines, n)
      \<and> n = length bg
      \<and> inj_on node_of (fst ` set bg)
      \<and> node_of ` fst ` set bg = {1..n}
      \<and> (\<forall>k S. map_of bg k = Some S \<longrightarrow>
            0 < card S
          \<and> weight_of S = - ln (1 / real (card S))
          \<and> outgoing lines (node_of k) =
              map (\<lambda>s. (node_of k, node_of s, s, s, weight_of S)) (sorted_list_of_set S)
          \<and> length (outgoing lines (node_of k)) = card S
          \<and> uniform_at lines (node_of k))
      \<and> list_all (\<lambda>(from_id, to_id, w_in, w_out, weight).
            1 \<le> from_id \<and> from_id \<le> n \<and> 1 \<le> to_id \<and> to_id \<le> n) lines
      \<and> (\<forall>node. 1 \<le> node \<and> node \<le> n \<longrightarrow> uniform_at lines node))"
proof -
  from bigram_lines_structure [of kw input]
  obtain bg ids where B: "build_bigrams kw (normalise input) [(OOV_TERM, {OOV_TERM})] = Inr bg
      \<and> bigram_lines kw input =
        Inr (concat (map (node_lines (map_of ids) bg) (sort (map fst bg))), length ids)
      \<and> wf_bigrams bg
      \<and> succ_rel bg = insert (OOV_TERM, OOV_TERM) (seqs_rel kw (normalise input))
      \<and> ids_ok ids
      \<and> fst ` set ids = fst ` set bg \<union> Range (succ_rel bg)"
    by (elim exE) (erule that)
  let ?m = "map_of ids"
  let ?node_of = "\<lambda>w. the (?m w)"
  let ?keys = "sort (map fst bg)"
  let ?lines = "concat (map (node_lines ?m bg) ?keys)"
  from B have build: "build_bigrams kw (normalise input) [(OOV_TERM, {OOV_TERM})] = Inr bg"
    by simp
  from B have res0: "bigram_lines kw input = Inr (?lines, length ids)" by simp
  from B have wf: "wf_bigrams bg" by simp
  from B have rel: "succ_rel bg = insert (OOV_TERM, OOV_TERM) (seqs_rel kw (normalise input))"
    by simp
  from B have ok: "ids_ok ids" by simp
  from B have keys: "fst ` set ids = fst ` set bg \<union> Range (succ_rel bg)" by simp
  have dr: "Domain (succ_rel bg) = Range (succ_rel bg)"
    unfolding rel by (rule total_rel_Domain_Range)
  have dom_ids: "fst ` set ids = fst ` set bg"
    using keys dr domain_succ_rel [OF wf] by simp
  have has_id: "\<exists>i. ?m k = Some i" if "k \<in> fst ` set bg" for k
  proof -
    from that have "?m k \<noteq> None" by (simp add: map_of_eq_None_iff dom_ids)
    then show ?thesis by auto
  qed
  have dist: "distinct ?keys"
    using wf by (simp add: wf_bigrams_def)
  have len: "length ids = length bg"
  proof -
    have "length ids = card (fst ` set ids)"
      using ok distinct_card [of "map fst ids"] by (simp add: ids_ok_def)
    also have "\<dots> = card (fst ` set bg)" by (simp only: dom_ids)
    also have "\<dots> = length bg"
      using wf distinct_card [of "map fst bg"] by (simp add: wf_bigrams_def)
    finally show ?thesis .
  qed
  have res: "bigram_lines kw input = Inr (?lines, length bg)"
    using res0 len by simp
  have words: "insert OOV_TERM (\<Union>ws \<in> set (normalise input). set ws) \<subseteq> fst ` set bg"
  proof -
    have "insert OOV_TERM (\<Union>ws \<in> set (normalise input). set ws) \<subseteq> Domain (succ_rel bg)"
      unfolding rel using seqs_rel_words [of _ "normalise input" kw] by auto
    then show ?thesis by (simp only: domain_succ_rel [OF wf])
  qed
  have inj: "inj_on ?node_of (fst ` set bg)"
  proof (rule inj_onI)
    fix s t assume st: "s \<in> fst ` set bg" "t \<in> fst ` set bg" "the (?m s) = the (?m t)"
    then obtain i j where "?m s = Some i" "?m t = Some j"
      using has_id by blast
    with st(3) show "s = t"
      using ids_ok_inj [OF ok, of s i t] by simp
  qed
  have img: "?node_of ` fst ` set bg = {1..length bg}"
  proof -
    have "?node_of ` fst ` set ids = snd ` set ids"
    proof (rule set_eqI)
      fix i
      show "i \<in> ?node_of ` fst ` set ids \<longleftrightarrow> i \<in> snd ` set ids"
      proof
        assume "i \<in> ?node_of ` fst ` set ids"
        then obtain k j where kj: "(k, j) \<in> set ids" "i = the (?m k)" by force
        then have "?m k = Some j" using ids_ok_lookup [OF ok] by simp
        with kj show "i \<in> snd ` set ids" by force
      next
        assume "i \<in> snd ` set ids"
        then obtain k where k: "(k, i) \<in> set ids" by auto
        then have "?m k = Some i" by (rule ids_ok_lookup [OF ok])
        with k show "i \<in> ?node_of ` fst ` set ids" by force
      qed
    qed
    then show ?thesis
      by (simp only: dom_ids ids_ok_range [OF ok] len)
  qed
  have key: "0 < card S
          \<and> weight_of S = - ln (1 / real (card S))
          \<and> outgoing ?lines (?node_of k) =
              map (\<lambda>s. (?node_of k, ?node_of s, s, s, weight_of S)) (sorted_list_of_set S)
          \<and> length (outgoing ?lines (?node_of k)) = card S
          \<and> uniform_at ?lines (?node_of k)"
    if S: "map_of bg k = Some S" for k S
  proof -
    from S have "map_of bg k \<noteq> None" by simp
    then have k_key: "k \<in> fst ` set bg" by (simp add: map_of_eq_None_iff)
    then obtain node where mk: "?m k = Some node" using has_id by blast
    have fin: "finite S" and ne: "S \<noteq> {}"
      using wf S by (auto simp: wf_bigrams_def)
    have pos: "0 < card S" using fin ne by (simp add: card_gt_0_iff)
    have block: "filter (\<lambda>l. fst l = node)
          (node_lines ?m bg k') = (if k' = k then node_lines ?m bg k else [])"
      if k': "k' \<in> set ?keys" for k'
    proof (cases "k' = k")
      case True
      have "\<forall>l \<in> set (node_lines ?m bg k). fst l = node"
        using node_lines_from [of _ ?m bg k] mk by simp
      then show ?thesis using True by (simp add: filter_id_conv)
    next
      case False
      from k' have "k' \<in> fst ` set bg" by simp
      then obtain j where j: "?m k' = Some j" using has_id by blast
      have "j \<noteq> node"
        using ids_ok_inj [OF ok j, of k] mk False by auto
      then have "\<forall>l \<in> set (node_lines ?m bg k'). fst l \<noteq> node"
        using node_lines_from [of _ ?m bg k'] j by simp
      then show ?thesis using False by (simp add: filter_empty_conv)
    qed
    have "outgoing ?lines node =
        concat (map (\<lambda>k'. filter (\<lambda>l. fst l = node) (node_lines ?m bg k')) ?keys)"
      by (simp add: outgoing_fst filter_concat comp_def)
    also have "\<dots> = concat (map (\<lambda>k'. if k' = k then node_lines ?m bg k else []) ?keys)"
      using block by (intro arg_cong [where f = concat] map_cong) auto
    also have "\<dots> = node_lines ?m bg k"
      using dist k_key by (intro concat_single) auto
    also have "\<dots> = map (\<lambda>s. (node, the (?m s), s, s, weight_of S)) (sorted_list_of_set S)"
      by (simp add: node_lines_def S mk)
    finally have out: "outgoing ?lines node =
        map (\<lambda>s. (node, the (?m s), s, s, weight_of S)) (sorted_list_of_set S)" .
    have injS: "inj_on (\<lambda>s. the (?m s)) S"
    proof (rule inj_on_subset [OF inj], rule subsetI)
      fix s assume "s \<in> S"
      then have "(k, s) \<in> succ_rel bg"
        using S by (auto simp: succ_rel_def)
      then have "s \<in> Range (succ_rel bg)" by auto
      then show "s \<in> fst ` set bg"
        using keys dom_ids by auto
    qed
    have u: "uniform_at ?lines node"
      unfolding uniform_at_def out by (rule uniform_block [OF fin ne injS])
    have w: "weight_of S = - ln (1 / real (card S))"
      using pos by (simp add: weight_of_def)
    have l: "length (outgoing ?lines node) = card S"
      by (simp add: out)
    from mk have node: "?node_of k = node" by simp
    show ?thesis
      unfolding node using pos w out l u by simp
  qed
  have U: "uniform_at ?lines node" if node: "1 \<le> node \<and> node \<le> length bg" for node
  proof -
    from node have "node \<in> ?node_of ` fst ` set bg"
      by (simp only: img) simp
    then obtain k where k: "k \<in> fst ` set bg" "node = ?node_of k" by blast
    then have "map_of bg k \<noteq> None" by (simp add: map_of_eq_None_iff)
    then obtain S where "map_of bg k = Some S" by auto
    from key [OF this] k(2) show ?thesis by simp
  qed
  have in_range: "1 \<le> ?node_of k \<and> ?node_of k \<le> length bg" if "k \<in> fst ` set bg" for k
  proof -
    from that have "?node_of k \<in> ?node_of ` fst ` set bg" by (rule imageI)
    then show ?thesis by (simp only: img) simp
  qed
  have L: "set ?lines =
     {(the (?m k), the (?m s), s, s, weight_of S) | k s S. map_of bg k = Some S \<and> s \<in> S}"
    by (rule set_all_lines [OF wf]) simp
  have ends: "1 \<le> from_id \<and> from_id \<le> length bg \<and> 1 \<le> to_id \<and> to_id \<le> length bg"
    if l: "(from_id, to_id, w_in, w_out, weight) \<in> set ?lines"
    for from_id to_id w_in w_out weight
  proof -
    from l obtain k s S where ks: "from_id = the (?m k)" "to_id = the (?m s)"
        "map_of bg k = Some S" "s \<in> S"
      unfolding L by blast
    have "(k, s) \<in> succ_rel bg" using ks by (auto simp: succ_rel_def)
    then have "k \<in> Domain (succ_rel bg)" "s \<in> Range (succ_rel bg)" by auto
    then have "k \<in> fst ` set bg" "s \<in> fst ` set bg"
      using domain_succ_rel [OF wf] dr by auto
    then show ?thesis using in_range ks by simp
  qed
  then have R: "list_all (\<lambda>(from_id, to_id, w_in, w_out, weight).
          1 \<le> from_id \<and> from_id \<le> length bg \<and> 1 \<le> to_id \<and> to_id \<le> length bg) ?lines"
    unfolding list_all_iff by fast
  have Z: "weight_of {} = 0" by (simp add: weight_of_def)
  have K: "\<forall>k S. map_of bg k = Some S \<longrightarrow>
            0 < card S
          \<and> weight_of S = - ln (1 / real (card S))
          \<and> outgoing ?lines (?node_of k) =
              map (\<lambda>s. (?node_of k, ?node_of s, s, s, weight_of S)) (sorted_list_of_set S)
          \<and> length (outgoing ?lines (?node_of k)) = card S
          \<and> uniform_at ?lines (?node_of k)"
    using key by blast
  have UU: "\<forall>node. 1 \<le> node \<and> node \<le> length bg \<longrightarrow> uniform_at ?lines node"
    using U by blast
  show ?thesis
    by (intro conjI Z exI [of _ bg] exI [of _ ?node_of] exI [of _ ?lines] exI [of _ "length bg"]
        build rel words res refl inj img K R UU)
qed

lemma two_sequences_bigrams:
  "build_bigrams \<lparr>conservative = False, disfluency = False, disfluencies = []\<rparr>
     (normalise (Nested [[''a'', ''b''], [''a'', ''c'']])) [(OOV_TERM, {OOV_TERM})] =
   Inr [(''<unk>'', {''a'', ''<unk>''}), (''a'', {''c'', ''b''}),
        (''b'', {''<unk>''}), (''c'', {''<unk>''})]"
  by (simp add: bigram_eval)

lemma outgoing_subset: "set (outgoing ls node) \<subseteq> set ls"
  by (auto simp: outgoing_def)

text \<open>
  Claim C6 on \<open>[["a", "b"], ["a", "c"]]\<close> at the word a: its successor set is
  \<open>{b, c}\<close>, its node is 2, and the two lines that leave node 2 weigh
  \<open>-ln (1/2) = ln 2\<close>.
\<close>

theorem C6_uniform_weights_witness:
  "build_bigrams \<lparr>conservative = False, disfluency = False, disfluencies = []\<rparr>
     (normalise (Nested [[''a'', ''b''], [''a'', ''c'']])) [(OOV_TERM, {OOV_TERM})] =
     Inr [(''<unk>'', {''a'', ''<unk>''}), (''a'', {''c'', ''b''}),
          (''b'', {''<unk>''}), (''c'', {''<unk>''})]
   \<and> map_of [(''<unk>'', {''a'', ''<unk>''}), (''a'', {''c'', ''b''}),
          (''b'', {''<unk>''}), (''c'', {''<unk>''})] ''a'' = Some {''c'', ''b''}
   \<and> card {''c'', ''b''} = 2
   \<and> weight_of {''c'', ''b''} = - ln (1 / 2)
   \<and> outgoing [(1, 1, ''<unk>'', ''<unk>'', ln 2),
         (1, 2, ''a'', ''a'', ln 2),
         (2, 3, ''b'', ''b'', ln 2),
         (2, 4, ''c'', ''c'', ln 2),
         (3, 1, ''<unk>'', ''<unk>'', 0),
         (4, 1, ''<unk>'', ''<unk>'', 0)] 2 =
       [(2, 3, ''b'', ''b'', ln 2), (2, 4, ''c'', ''c'', ln 2)]
   \<and> uniform_at [(1, 1, ''<unk>'', ''<unk>'', ln 2),
         (1, 2, ''a'', ''a'', ln 2),
         (2, 3, ''b'', ''b'', ln 2),
         (2, 4, ''c'', ''c'', ln 2),
         (3, 1, ''<unk>'', ''<unk>'', 0),
         (4, 1, ''<unk>'', ''<unk>'', 0)] 2"
proof -
  let ?kw = "\<lparr>conservative = False, disfluency = False, disfluencies = []\<rparr>"
  let ?input = "Nested [[''a'', ''b''], [''a'', ''c'']]"
  let ?BG = "[(''<unk>'', {''a'', ''<unk>''}), (''a'', {''c'', ''b''}),
          (''b'', {''<unk>''}), (''c'', {''<unk>''})] :: bigrams"
  let ?L = "[(1, 1, ''<unk>'', ''<unk>'', ln 2),
         (1, 2, ''a'', ''a'', ln 2),
         (2, 3, ''b'', ''b'', ln 2),
         (2, 4, ''c'', ''c'', ln 2),
         (3, 1, ''<unk>'', ''<unk>'', 0),
         (4, 1, ''<unk>'', ''<unk>'', 0)] :: line list"
  have "\<exists>bg node_of lines n.
        build_bigrams ?kw (normalise ?input) [(OOV_TERM, {OOV_TERM})] = Inr bg
      \<and> succ_rel bg = insert (OOV_TERM, OOV_TERM) (seqs_rel ?kw (normalise ?input))
      \<and> insert OOV_TERM (\<Union>ws \<in> set (normalise ?input). set ws) \<subseteq> fst ` set bg
      \<and> bigram_lines ?kw ?input = Inr (lines, n)
      \<and> n = length bg
      \<and> inj_on node_of (fst ` set bg)
      \<and> node_of ` fst ` set bg = {1..n}
      \<and> (\<forall>k S. map_of bg k = Some S \<longrightarrow>
            0 < card S
          \<and> weight_of S = - ln (1 / real (card S))
          \<and> outgoing lines (node_of k) =
              map (\<lambda>s. (node_of k, node_of s, s, s, weight_of S)) (sorted_list_of_set S)
          \<and> length (outgoing lines (node_of k)) = card S
          \<and> uniform_at lines (node_of k))
      \<and> list_all (\<lambda>(from_id, to_id, w_in, w_out, weight).
            1 \<le> from_id \<and> from_id \<le> n \<and> 1 \<le> to_id \<and> to_id \<le> n) lines
      \<and> (\<forall>node. 1 \<le> node \<and> node \<le> n \<longrightarrow> uniform_at lines node)"
    by (rule conjunct2 [OF C6_uniform_weights [of ?kw ?input]])
  then obtain bg node_of lines n where All:
       "build_bigrams ?kw (normalise ?input) [(OOV_TERM, {OOV_TERM})] = Inr bg
      \<and> succ_rel bg = insert (OOV_TERM, OOV_TERM) (seqs_rel ?kw (normalise ?input))
      \<and> insert OOV_TERM (\<Union>ws \<in> set (normalise ?input). set ws) \<subseteq> fst ` set bg
      \<and> bigram_lines ?kw ?input = Inr (lines, n)
      \<and> n = length bg
      \<and> inj_on node_of (fst ` set bg)
      \<and> node_of ` fst ` set bg = {1..n}
      \<and> (\<forall>k S. map_of bg k = Some S \<longrightarrow>
            0 < card S
          \<and> weight_of S = - ln (1 / real (card S))
          \<and> outgoing lines (node_of k) =
              map (\<lambda>s. (node_of k, node_of s, s, s, weight_of S)) (sorted_list_of_set S)
          \<and> length (outgoing lines (node_of k)) = card S
          \<and> uniform_at lines (node_of k))
      \<and> list_all (\<lambda>(from_id, to_id, w_in, w_out, weight).
            1 \<le> from_id \<and> from_id \<le> n \<and> 1 \<le> to_id \<and> to_id \<le> n) lines
      \<and> (\<forall>node. 1 \<le> node \<and> node \<le> n \<longrightarrow> uniform_at lines node)"
    by (elim exE) (erule that)
  from All have build: "build_bigrams ?kw (normalise ?input) [(OOV_TERM, {OOV_TERM})] = Inr bg"
    by (elim conjE)
  from All have res: "bigram_lines ?kw ?input = Inr (lines, n)"
    by (elim conjE)
  from All have key: "\<forall>k S. map_of bg k = Some S \<longrightarrow>
            0 < card S
          \<and> weight_of S = - ln (1 / real (card S))
          \<and> outgoing lines (node_of k) =
              map (\<lambda>s. (node_of k, node_of s, s, s, weight_of S)) (sorted_list_of_set S)
          \<and> length (outgoing lines (node_of k)) = card S
          \<and> uniform_at lines (node_of k)"
    by (elim conjE)
  from build have bg: "bg = ?BG" by (simp only: two_sequences_bigrams) simp
  from res have lines: "lines = ?L" by (simp add: two_sequences_lines)
  have S: "map_of ?BG ''a'' = Some {''c'', ''b''}" by simp
  have c: "card {''c'', ''b''} = 2" by simp
  from key have "map_of bg ''a'' = Some {''c'', ''b''} \<longrightarrow>
            0 < card {''c'', ''b''}
          \<and> weight_of {''c'', ''b''} = - ln (1 / real (card {''c'', ''b''}))
          \<and> outgoing lines (node_of ''a'') =
              map (\<lambda>s. (node_of ''a'', node_of s, s, s, weight_of {''c'', ''b''}))
                (sorted_list_of_set {''c'', ''b''})
          \<and> length (outgoing lines (node_of ''a'')) = card {''c'', ''b''}
          \<and> uniform_at lines (node_of ''a'')"
    by (elim allE)
  with S have inst: "weight_of {''c'', ''b''} = - ln (1 / real (card {''c'', ''b''}))
          \<and> outgoing ?L (node_of ''a'') =
              map (\<lambda>s. (node_of ''a'', node_of s, s, s, weight_of {''c'', ''b''}))
                (sorted_list_of_set {''c'', ''b''})
          \<and> uniform_at ?L (node_of ''a'')"
    unfolding bg lines by (elim impE conjE) (assumption, intro conjI, assumption+)
  from inst have a: "weight_of {''c'', ''b''} = - ln (1 / real (card {''c'', ''b''}))"
    by (rule conjunct1)
  from inst have o: "outgoing ?L (node_of ''a'') =
        map (\<lambda>s. (node_of ''a'', node_of s, s, s, weight_of {''c'', ''b''}))
          (sorted_list_of_set {''c'', ''b''})"
    by (elim conjE)
  from inst have u: "uniform_at ?L (node_of ''a'')"
    by (elim conjE)
  have sorted: "sorted_list_of_set {''c'', ''b''} = [''b'', ''c'']"
    by (simp add: insert_commute)
  have "(node_of ''a'', node_of ''b'', ''b'', ''b'', weight_of {''c'', ''b''})
      \<in> set (outgoing ?L (node_of ''a''))"
    unfolding o sorted by simp
  then have "(node_of ''a'', node_of ''b'', ''b'', ''b'', weight_of {''c'', ''b''}) \<in> set ?L"
    by (rule subsetD [OF outgoing_subset])
  then have node: "node_of ''a'' = 2"
    by simp
  have out: "outgoing ?L 2 = [(2, 3, ''b'', ''b'', ln 2), (2, 4, ''c'', ''c'', ln 2)]"
    by (simp add: outgoing_def)
  from a c have w: "weight_of {''c'', ''b''} = - ln (1 / 2)" by simp
  from u node have u2: "uniform_at ?L 2" by simp
  show ?thesis
    using two_sequences_bigrams S c w out u2 by simp
qed

subsection \<open>The builder always returns, and skips empty sequences\<close>

lemma make_bigram_lm_fst_total:
  "\<exists>out. make_bigram_lm_fst percent_f kw input = Inr out"
proof -
  from bigram_adjacency [of kw input]
  obtain lines n where "bigram_lines kw input = Inr (lines, n)" by blast
  then show ?thesis
    by (simp add: make_bigram_lm_fst_def and_then_def)
qed

lemma add_sequence_Nil: "add_sequence kw [] bg = Inr bg"
  by (simp add: add_sequence_def)

lemma build_bigrams_append:
  "build_bigrams kw (xs @ ys) bg =
     (case build_bigrams kw xs bg of Inl e \<Rightarrow> Inl e | Inr bg' \<Rightarrow> build_bigrams kw ys bg')"
  by (induction xs arbitrary: bg) (auto split: sum.splits)

lemma build_bigrams_skips_empty:
  "build_bigrams kw (xs @ [] # ys) bg = build_bigrams kw (xs @ ys) bg"
  by (simp add: build_bigrams_append add_sequence_Nil split: sum.splits)

lemma build_bigrams_only_empty:
  "build_bigrams kw [[]] bg = build_bigrams kw [] bg"
  by (simp add: add_sequence_Nil)

text \<open>
  The bigram half of claim C3: a list of sequences with an empty sequence gives the same
  bytes as the list without it.
\<close>

lemma bigram_skips_empty_sequence:
  "make_bigram_lm_fst percent_f kw (Nested (xs @ [] # ys)) =
   make_bigram_lm_fst percent_f kw (Nested (xs @ ys))"
proof -
  have "build_bigrams kw (normalise (Nested (xs @ [] # ys))) bg =
        build_bigrams kw (normalise (Nested (xs @ ys))) bg" for bg
  proof (cases "xs @ ys")
    case Nil
    then show ?thesis by (simp add: add_sequence_Nil)
  next
    case (Cons z zs)
    have "normalise (Nested (xs @ [] # ys)) = xs @ [] # ys"
      by (cases xs) simp_all
    moreover have "normalise (Nested (xs @ ys)) = xs @ ys"
      using Cons by simp
    ultimately show ?thesis
      by (simp add: build_bigrams_skips_empty)
  qed
  then show ?thesis
    by (simp add: make_bigram_lm_fst_def bigram_lines_def)
qed

section \<open>Properties of the transcript builder\<close>

subsection \<open>The allocation counter and the end node id\<close>

lemma walk_words_next_available:
  "next_available_node_id (walk_words kw e ws st) =
     next_available_node_id st + int (length ws - 2)"
proof (induction ws arbitrary: st)
  case Nil
  then show ?case by simp
next
  case (Cons w rest)
  show ?case
  proof (cases "rest = []")
    case True
    then show ?thesis by (simp add: Let_def)
  next
    case False
    then have "length rest \<noteq> 0" by simp
    then have "length rest = 1 \<or> 2 \<le> length rest"
      by arith
    then show ?thesis
      using False by (auto simp: Let_def Cons.IH)
  qed
qed

lemma add_chain_next_available:
  "next_available_node_id (add_chain kw e ws st) =
     next_available_node_id st + int (length ws - 1)"
proof -
  have "length ws = 0 \<or> length ws = 1 \<or> 2 \<le> length ws"
    by arith
  then show ?thesis
    by (auto simp: add_chain_def Let_def walk_words_next_available)
qed

lemma fold_add_chain_next_available:
  "next_available_node_id (fold (add_chain kw e) wss st) =
     next_available_node_id st + sum_list (map (\<lambda>ws. int (length ws - 1)) wss)"
  by (induction wss arbitrary: st) (simp_all add: add_chain_next_available)

lemma transcript_loop_next_available:
  "next_available_node_id (transcript_loop kw e wss) =
     1 + sum_list (map (\<lambda>ws. int (length ws - 1)) wss)"
  by (simp add: transcript_loop_def fold_add_chain_next_available initial_tstate_def)

lemma sum_length_pred:
  "sum_list (map (\<lambda>ws. int (length ws - 1)) wss) =
     sum_list (map (\<lambda>ws. int (length ws) - 1) wss) + int (length (filter (\<lambda>ws. ws = []) wss))"
proof (induction wss)
  case Nil
  then show ?case by simp
next
  case (Cons ws wss)
  show ?case
  proof (cases "ws = []")
    case True
    then show ?thesis using Cons by simp
  next
    case False
    then have "int (length ws - 1) = int (length ws) - 1"
      by (cases ws) simp_all
    then show ?thesis using Cons False by simp
  qed
qed

lemma end_node_id_of_count:
  "end_node_id_of wss + int (length (filter (\<lambda>ws. ws = []) wss)) =
     1 + sum_list (map (\<lambda>ws. int (length ws - 1)) wss)"
  using sum_length_pred [of wss] by (simp add: end_node_id_of_def)

lemma assertion_passes_iff:
  "end_node_id_of wss = next_available_node_id (transcript_loop kw (end_node_id_of wss) wss)
     \<longleftrightarrow> [] \<notin> set wss"
proof -
  have "end_node_id_of wss = next_available_node_id (transcript_loop kw (end_node_id_of wss) wss)
     \<longleftrightarrow> int (length (filter (\<lambda>ws. ws = []) wss)) = 0"
    using end_node_id_of_count [of wss]
    by (simp only: transcript_loop_next_available) arith
  also have "\<dots> \<longleftrightarrow> [] \<notin> set wss"
    by (auto simp: filter_empty_conv)
  finally show ?thesis .
qed

subsection \<open>The edges of one chain\<close>

lemma walk_words_output:
  "ws \<noteq> [] \<Longrightarrow>
   output_edges (walk_words kw e ws st) =
     output_edges st @
     concat (map (\<lambda>i. position_edges kw (walk_source e st (length ws) i)
                     (walk_target e st (length ws) i) (ws ! i) (i + 1 < length ws))
               [0..<length ws])"
proof (induction ws arbitrary: st)
  case Nil
  then show ?case by simp
next
  case (Cons w rest)
  show ?case
  proof (cases "rest = []")
    case True
    then show ?thesis
      by (simp add: position_edges_def walk_source_def walk_target_def)
  next
    case False
    define st3 where "st3 =
      (if length rest = 1
       then st\<lparr>cur_node_id := next_node_id st, next_node_id := e\<rparr>
       else st\<lparr>cur_node_id := next_node_id st,
               next_node_id := next_available_node_id st,
               next_available_node_id := next_available_node_id st + 1\<rparr>)
      \<lparr>output_edges := output_edges st @ position_edges kw (cur_node_id st) (next_node_id st) w True\<rparr>"
    have step: "walk_words kw e (w # rest) st = walk_words kw e rest st3"
      using False by (simp add: st3_def Let_def position_edges_def)
    have len: "length rest \<noteq> 0" using False by simp
    have tgt: "walk_target e st (length (w # rest)) (Suc j) = walk_target e st3 (length rest) j"
      if "j < length rest" for j
      using that len by (auto simp: walk_target_def st3_def)
    have src: "walk_source e st (length (w # rest)) (Suc j) = walk_source e st3 (length rest) j"
      if "j < length rest" for j
    proof (cases j)
      case 0
      then show ?thesis by (simp add: walk_source_def walk_target_def st3_def)
    next
      case (Suc k)
      then have "k < length rest" using that by simp
      from tgt [OF this] show ?thesis
        using Suc that by (simp add: walk_source_def walk_target_def)
    qed
    have tail: "map (\<lambda>i. position_edges kw (walk_source e st (length (w # rest)) i)
                     (walk_target e st (length (w # rest)) i) ((w # rest) ! i)
                     (i + 1 < length (w # rest)))
               (map Suc [0..<length rest]) =
          map (\<lambda>i. position_edges kw (walk_source e st3 (length rest) i)
                     (walk_target e st3 (length rest) i) (rest ! i) (i + 1 < length rest))
               [0..<length rest]"
      using tgt src by (simp add: map_idI)
    have head: "position_edges kw (walk_source e st (length (w # rest)) 0)
                     (walk_target e st (length (w # rest)) 0) ((w # rest) ! 0)
                     (0 + 1 < length (w # rest)) =
                position_edges kw (cur_node_id st) (next_node_id st) w True"
      using False by (simp add: walk_source_def walk_target_def)
    have upt: "[0..<length (w # rest)] = 0 # map Suc [0..<length rest]"
      by (simp add: upt_conv_Cons map_Suc_upt del: upt_Suc)
    have out3: "output_edges st3 =
        output_edges st @ position_edges kw (cur_node_id st) (next_node_id st) w True"
      by (simp add: st3_def)
    show ?thesis
      unfolding step Cons.IH [OF False] upt list.map concat.simps tail head out3
      by simp
  qed
qed

lemma walk_words_end_node_flag:
  "end_node_flag (walk_words kw e ws st) = end_node_flag st"
proof (induction ws arbitrary: st)
  case Nil
  then show ?case by simp
next
  case (Cons w rest)
  then show ?case by (simp add: Let_def)
qed

lemma add_chain_output:
  assumes "ws \<noteq> []"
  shows "output_edges (add_chain kw e ws st) =
     output_edges st
     @ (if start_node_flag st then self_loops kw 0 else [])
     @ concat (map (\<lambda>i.
          [(chain_source (next_available_node_id st) i,
            chain_target e (next_available_node_id st) (length ws) i, ws ! i, ws ! i, 2),
           (chain_source (next_available_node_id st) i,
            chain_target e (next_available_node_id st) (length ws) i, OOV_TERM, OOV_TERM, 0)]
          @ (if i + 1 < length ws
             then self_loops kw (chain_target e (next_available_node_id st) (length ws) i)
             else []))
        [0..<length ws])
     @ (if end_node_flag st then self_loops kw e else [])"
proof -
  define st1 where "st1 = st\<lparr>cur_node_id := 0\<rparr>"
  define st2 where "st2 =
     (if start_node_flag st1
      then st1\<lparr>output_edges := output_edges st1 @ self_loops kw (cur_node_id st1),
               start_node_flag := False\<rparr>
      else st1)"
  define st3 where "st3 =
     (if length ws = 1
      then st2\<lparr>next_node_id := e\<rparr>
      else st2\<lparr>next_node_id := next_available_node_id st2,
               next_available_node_id := next_available_node_id st2 + 1\<rparr>)"
  have chain: "add_chain kw e ws st =
      (let st4 = walk_words kw e ws st3
       in if end_node_flag st4
          then st4\<lparr>output_edges := output_edges st4 @ self_loops kw e, end_node_flag := False\<rparr>
          else st4)"
    using assms by (simp add: add_chain_def st1_def st2_def st3_def Let_def)
  have flag: "end_node_flag st3 = end_node_flag st"
    by (simp add: st1_def st2_def st3_def)
  have out3: "output_edges st3 =
      output_edges st @ (if start_node_flag st then self_loops kw 0 else [])"
    by (simp add: st1_def st2_def st3_def)
  have cur3: "cur_node_id st3 = 0"
    by (simp add: st1_def st2_def st3_def)
  have next3: "next_node_id st3 = (if length ws = 1 then e else next_available_node_id st)"
    by (simp add: st1_def st2_def st3_def)
  have avail3: "length ws \<noteq> 1 \<Longrightarrow> next_available_node_id st3 = next_available_node_id st + 1"
    by (simp add: st1_def st2_def st3_def)
  have tgt: "walk_target e st3 (length ws) i = chain_target e (next_available_node_id st) (length ws) i"
    if "i < length ws" for i
    using that avail3 by (auto simp: walk_target_def chain_target_def next3)
  have src: "walk_source e st3 (length ws) i = chain_source (next_available_node_id st) i"
    if "i < length ws" for i
  proof (cases i)
    case 0
    then show ?thesis by (simp add: walk_source_def chain_source_def cur3)
  next
    case (Suc k)
    then have "k < length ws" "k + 1 \<noteq> length ws" using that by simp_all
    with tgt [of k] show ?thesis
      using Suc by (simp add: walk_source_def chain_source_def chain_target_def)
  qed
  have positions: "map (\<lambda>i. position_edges kw (walk_source e st3 (length ws) i)
                     (walk_target e st3 (length ws) i) (ws ! i) (i + 1 < length ws))
               [0..<length ws] =
        map (\<lambda>i.
          [(chain_source (next_available_node_id st) i,
            chain_target e (next_available_node_id st) (length ws) i, ws ! i, ws ! i, 2),
           (chain_source (next_available_node_id st) i,
            chain_target e (next_available_node_id st) (length ws) i, OOV_TERM, OOV_TERM, 0)]
          @ (if i + 1 < length ws
             then self_loops kw (chain_target e (next_available_node_id st) (length ws) i)
             else []))
        [0..<length ws]"
    using tgt src by (simp add: position_edges_def)
  have "output_edges (add_chain kw e ws st) =
      output_edges (walk_words kw e ws st3) @ (if end_node_flag st then self_loops kw e else [])"
    by (simp add: chain Let_def walk_words_end_node_flag flag)
  then show ?thesis
    unfolding walk_words_output [OF assms] positions out3 by simp
qed

lemmas transcript_eval =
  transcript_edges_def transcript_loop_def add_chain_def end_node_id_of_def
  initial_tstate_def self_loops_def Let_def OOV_TERM_def

lemma add_chain_two_edges:
  assumes "ws \<noteq> []" and "i < length ws"
  shows "(chain_source (next_available_node_id st) i,
          chain_target e (next_available_node_id st) (length ws) i, ws ! i, ws ! i, 2)
           \<in> set (output_edges (add_chain kw e ws st))
       \<and> (chain_source (next_available_node_id st) i,
          chain_target e (next_available_node_id st) (length ws) i, OOV_TERM, OOV_TERM, 0)
           \<in> set (output_edges (add_chain kw e ws st))"
  using assms(2) unfolding add_chain_output [OF assms(1)]
  by (auto intro!: bexI [of _ i])

lemma add_chain_grows:
  "set (output_edges st) \<subseteq> set (output_edges (add_chain kw e ws st))"
proof (cases "ws = []")
  case True
  then show ?thesis by (simp add: add_chain_def)
next
  case False
  show ?thesis
    unfolding add_chain_output [OF False] by auto
qed

lemma fold_add_chain_grows:
  "set (output_edges st) \<subseteq> set (output_edges (fold (add_chain kw e) seqs st))"
proof (induction seqs arbitrary: st)
  case Nil
  then show ?case by simp
next
  case (Cons ws seqs)
  have "set (output_edges st) \<subseteq> set (output_edges (add_chain kw e ws st))"
    by (rule add_chain_grows)
  also have "\<dots> \<subseteq> set (output_edges (fold (add_chain kw e) seqs (add_chain kw e ws st)))"
    by (rule Cons.IH)
  finally show ?case by simp
qed

lemma fold_add_chain_two_edges:
  assumes "ws \<in> set seqs" and "i < length ws"
  shows "\<exists>src tgt.
       (src, tgt, ws ! i, ws ! i, 2) \<in> set (output_edges (fold (add_chain kw e) seqs st))
     \<and> (src, tgt, OOV_TERM, OOV_TERM, 0) \<in> set (output_edges (fold (add_chain kw e) seqs st))"
  using assms(1)
proof (induction seqs arbitrary: st)
  case Nil
  then show ?case by simp
next
  case (Cons x seqs)
  show ?case
  proof (cases "ws = x")
    case True
    from assms(2) have ne: "ws \<noteq> []" by auto
    from add_chain_two_edges [OF ne assms(2), of st e kw]
    obtain src tgt where
      "(src, tgt, ws ! i, ws ! i, 2) \<in> set (output_edges (add_chain kw e ws st))"
      "(src, tgt, OOV_TERM, OOV_TERM, 0) \<in> set (output_edges (add_chain kw e ws st))"
      by blast
    then show ?thesis
      using fold_add_chain_grows [of "add_chain kw e ws st" kw e seqs] True by auto
  next
    case False
    with Cons.prems have "ws \<in> set seqs" by simp
    from Cons.IH [OF this, of "add_chain kw e x st"] show ?thesis by simp
  qed
qed

text \<open>
  Claim C7. The body of the loop over the word sequences, run on a non-empty sequence
  \<open>ws\<close>, appends to the output: the self loops of the start node if they have not
  been emitted yet; then, for every word position \<open>i\<close> in order, exactly the two
  parallel edges from the source of the position to its target, the first labelled with
  the word \<open>ws ! i\<close> at weight 2.0 and the second labelled with the OOV term at weight
  0.0, followed (before the last position only) by the self loops of the target; and at
  the end the self loops of the end node if they have not been emitted yet. The self
  loops are empty unless a flag is set. And when \<open>make_transcript_fst\<close> passes its
  assertion, the edges it returns have, for every position of every sequence, the word
  edge of weight 2.0 and the OOV edge of weight 0.0 between the same two nodes.
\<close>

theorem C7_two_parallel_edges:
  assumes "ws \<noteq> []"
  shows "output_edges (add_chain kw e ws st) =
       output_edges st
       @ (if start_node_flag st then self_loops kw 0 else [])
       @ concat (map (\<lambda>i.
            [(chain_source (next_available_node_id st) i,
              chain_target e (next_available_node_id st) (length ws) i, ws ! i, ws ! i, 2),
             (chain_source (next_available_node_id st) i,
              chain_target e (next_available_node_id st) (length ws) i, OOV_TERM, OOV_TERM, 0)]
            @ (if i + 1 < length ws
               then self_loops kw (chain_target e (next_available_node_id st) (length ws) i)
               else []))
          [0..<length ws])
       @ (if end_node_flag st then self_loops kw e else [])
     \<and> (transcript_edges kw input = Inr (edges, end_node_id) \<and> ws \<in> set (normalise input)
           \<and> j < length ws
         \<longrightarrow> (\<exists>src tgt. (src, tgt, ws ! j, ws ! j, 2) \<in> set edges
                \<and> (src, tgt, OOV_TERM, OOV_TERM, 0) \<in> set edges))"
proof (intro conjI impI)
  show "output_edges (add_chain kw e ws st) =
       output_edges st
       @ (if start_node_flag st then self_loops kw 0 else [])
       @ concat (map (\<lambda>i.
            [(chain_source (next_available_node_id st) i,
              chain_target e (next_available_node_id st) (length ws) i, ws ! i, ws ! i, 2),
             (chain_source (next_available_node_id st) i,
              chain_target e (next_available_node_id st) (length ws) i, OOV_TERM, OOV_TERM, 0)]
            @ (if i + 1 < length ws
               then self_loops kw (chain_target e (next_available_node_id st) (length ws) i)
               else []))
          [0..<length ws])
       @ (if end_node_flag st then self_loops kw e else [])"
    by (rule add_chain_output [OF assms])
next
  assume "transcript_edges kw input = Inr (edges, end_node_id) \<and> ws \<in> set (normalise input)
           \<and> j < length ws"
  then have res: "transcript_edges kw input = Inr (edges, end_node_id)"
    and mem: "ws \<in> set (normalise input)" and j: "j < length ws"
    by simp_all
  from res have "edges = sort (output_edges
      (transcript_loop kw (end_node_id_of (normalise input)) (normalise input)))"
    by (auto simp: transcript_edges_def Let_def split: if_splits)
  then have "set edges = set (output_edges
      (fold (add_chain kw (end_node_id_of (normalise input))) (normalise input) initial_tstate))"
    by (simp add: transcript_loop_def)
  with fold_add_chain_two_edges [OF mem j] show
    "\<exists>src tgt. (src, tgt, ws ! j, ws ! j, 2) \<in> set edges
              \<and> (src, tgt, OOV_TERM, OOV_TERM, 0) \<in> set edges"
    by simp
qed

text \<open>
  Claim C7 on the sequence a, b, c: one iteration with the conservative flag and end
  node 7, and the whole builder without flags at the position of b.
\<close>

theorem C7_two_parallel_edges_witness:
  "[''a'', ''b'', ''c''] \<noteq> [] \<and>
   output_edges (add_chain \<lparr>conservative = True, disfluency = False, disfluencies = []\<rparr>
       7 [''a'', ''b'', ''c''] initial_tstate) =
     [(0, 0, ''<unk>'', ''<unk>'', 0),
      (0, 1, ''a'', ''a'', 2), (0, 1, ''<unk>'', ''<unk>'', 0), (1, 1, ''<unk>'', ''<unk>'', 0),
      (1, 2, ''b'', ''b'', 2), (1, 2, ''<unk>'', ''<unk>'', 0), (2, 2, ''<unk>'', ''<unk>'', 0),
      (2, 7, ''c'', ''c'', 2), (2, 7, ''<unk>'', ''<unk>'', 0),
      (7, 7, ''<unk>'', ''<unk>'', 0)]
   \<and> transcript_edges \<lparr>conservative = False, disfluency = False, disfluencies = []\<rparr>
       (Nested [[''a'', ''b'', ''c'']]) =
     Inr ([(0, 1, ''<unk>'', ''<unk>'', 0), (0, 1, ''a'', ''a'', 2),
           (1, 2, ''<unk>'', ''<unk>'', 0), (1, 2, ''b'', ''b'', 2),
           (2, 3, ''<unk>'', ''<unk>'', 0), (2, 3, ''c'', ''c'', 2)], 3)
   \<and> [''a'', ''b'', ''c''] \<in> set (normalise (Nested [[''a'', ''b'', ''c'']]))
   \<and> (1::nat) < length [''a'', ''b'', ''c'']
   \<and> (\<exists>src tgt.
         (src, tgt, [''a'', ''b'', ''c''] ! 1, [''a'', ''b'', ''c''] ! 1, 2)
           \<in> set ([(0, 1, ''<unk>'', ''<unk>'', 0), (0, 1, ''a'', ''a'', 2),
                  (1, 2, ''<unk>'', ''<unk>'', 0), (1, 2, ''b'', ''b'', 2),
                  (2, 3, ''<unk>'', ''<unk>'', 0), (2, 3, ''c'', ''c'', 2)] :: edge list)
       \<and> (src, tgt, OOV_TERM, OOV_TERM, 0)
           \<in> set ([(0, 1, ''<unk>'', ''<unk>'', 0), (0, 1, ''a'', ''a'', 2),
                  (1, 2, ''<unk>'', ''<unk>'', 0), (1, 2, ''b'', ''b'', 2),
                  (2, 3, ''<unk>'', ''<unk>'', 0), (2, 3, ''c'', ''c'', 2)] :: edge list))"
proof -
  have ne: "[''a'', ''b'', ''c''] \<noteq> []" by simp
  have res: "transcript_edges \<lparr>conservative = False, disfluency = False, disfluencies = []\<rparr>
       (Nested [[''a'', ''b'', ''c'']]) =
     Inr ([(0, 1, ''<unk>'', ''<unk>'', 0), (0, 1, ''a'', ''a'', 2),
           (1, 2, ''<unk>'', ''<unk>'', 0), (1, 2, ''b'', ''b'', 2),
           (2, 3, ''<unk>'', ''<unk>'', 0), (2, 3, ''c'', ''c'', 2)], 3)"
    by (simp add: transcript_eval)
  have mem: "[''a'', ''b'', ''c''] \<in> set (normalise (Nested [[''a'', ''b'', ''c'']]))" by simp
  have len: "(1::nat) < length [''a'', ''b'', ''c'']" by simp
  have out: "output_edges (add_chain \<lparr>conservative = True, disfluency = False, disfluencies = []\<rparr>
       7 [''a'', ''b'', ''c''] initial_tstate) =
     [(0, 0, ''<unk>'', ''<unk>'', 0),
      (0, 1, ''a'', ''a'', 2), (0, 1, ''<unk>'', ''<unk>'', 0), (1, 1, ''<unk>'', ''<unk>'', 0),
      (1, 2, ''b'', ''b'', 2), (1, 2, ''<unk>'', ''<unk>'', 0), (2, 2, ''<unk>'', ''<unk>'', 0),
      (2, 7, ''c'', ''c'', 2), (2, 7, ''<unk>'', ''<unk>'', 0),
      (7, 7, ''<unk>'', ''<unk>'', 0)]"
    using C7_two_parallel_edges [OF ne,
      of "\<lparr>conservative = True, disfluency = False, disfluencies = []\<rparr>" 7 initial_tstate]
    by (simp add: initial_tstate_def self_loops_def chain_source_def chain_target_def OOV_TERM_def
        upt_conv_Cons del: upt_Suc)
  from C7_two_parallel_edges [OF ne,
      of "\<lparr>conservative = False, disfluency = False, disfluencies = []\<rparr>" _ _
         "Nested [[''a'', ''b'', ''c'']]" _ 3 1] res mem len
  have ex: "\<exists>src tgt.
         (src, tgt, [''a'', ''b'', ''c''] ! 1, [''a'', ''b'', ''c''] ! 1, 2)
           \<in> set ([(0, 1, ''<unk>'', ''<unk>'', 0), (0, 1, ''a'', ''a'', 2),
                  (1, 2, ''<unk>'', ''<unk>'', 0), (1, 2, ''b'', ''b'', 2),
                  (2, 3, ''<unk>'', ''<unk>'', 0), (2, 3, ''c'', ''c'', 2)] :: edge list)
       \<and> (src, tgt, OOV_TERM, OOV_TERM, 0)
           \<in> set ([(0, 1, ''<unk>'', ''<unk>'', 0), (0, 1, ''a'', ''a'', 2),
                  (1, 2, ''<unk>'', ''<unk>'', 0), (1, 2, ''b'', ''b'', 2),
                  (2, 3, ''<unk>'', ''<unk>'', 0), (2, 3, ''c'', ''c'', 2)] :: edge list)"
    by blast
  from ne out res mem len ex show ?thesis by blast
qed

subsection \<open>The assertion, the empty sequence and the flat input\<close>

text \<open>
  Claim C10. For a list of lists that contains an empty word sequence, and for the empty
  list (which is wrapped as one empty sequence), \<open>make_transcript_fst\<close> raises the
  \<open>AssertionError\<close> of line 180 and returns nothing: the end node id counts \<open>-1\<close>
  for the empty sequence, the allocation counter does not.
\<close>

theorem C10_empty_sequence_raises:
  assumes "wss = [] \<or> [] \<in> set wss"
  shows "make_transcript_fst float_str kw (Nested wss) =
     Inl (AssertionError (end_node_id_of (normalise (Nested wss)))
            (1 + sum_list (map (\<lambda>ws. int (length ws - 1)) (normalise (Nested wss)))))"
proof -
  have "[] \<in> set (normalise (Nested wss))"
    using assms by (cases wss) auto
  then have "end_node_id_of (normalise (Nested wss)) \<noteq>
      next_available_node_id
        (transcript_loop kw (end_node_id_of (normalise (Nested wss))) (normalise (Nested wss)))"
    by (simp add: assertion_passes_iff)
  then show ?thesis
    by (simp add: make_transcript_fst_def transcript_edges_def Let_def and_then_def
        transcript_loop_next_available)
qed

text \<open>Claim C10 on \<open>[["a", "b"], []]\<close>: the message is \<open>1 vs 2\<close>.\<close>

theorem C10_empty_sequence_raises_witness:
  "([[''a'', ''b''], []] = [] \<or> [] \<in> set [[''a'', ''b''], []]) \<and>
   make_transcript_fst (\<lambda>w. ''0.0'')
     \<lparr>conservative = False, disfluency = False, disfluencies = []\<rparr>
     (Nested [[''a'', ''b''], []]) = Inl (AssertionError 1 2)"
  using C10_empty_sequence_raises [of "[[''a'', ''b''], []]" "\<lambda>w. ''0.0''"
      "\<lparr>conservative = False, disfluency = False, disfluencies = []\<rparr>"]
  by (simp add: end_node_id_of_def)

text \<open>
  On sequences that are all non-empty, line 122 agrees with the formula of the
  specification.
\<close>

lemma end_node_id_of_spec:
  "[] \<notin> set wss \<Longrightarrow> end_node_id_of wss = spec_end_node_id wss"
proof (induction wss)
  case Nil
  then show ?case by (simp add: end_node_id_of_def spec_end_node_id_def)
next
  case (Cons ws wss)
  then have "ws \<noteq> []" by auto
  then have "max (int (length ws) - 1) 0 = int (length ws) - 1"
    by (cases ws) simp_all
  with Cons show ?case
    by (simp add: end_node_id_of_def spec_end_node_id_def)
qed

text \<open>
  Claim C5. For every input whose word sequences, as the builder reads them after the
  wrapping of line 111, are all non-empty, the number of node ids allocated by the loop
  (the counter, which starts at 1, minus 1) equals the precomputed end node id minus 1,
  which is the sum of \<open>max(len(seq) - 1, 0)\<close> over the sequences; so the assertion of
  line 180 holds and \<open>make_transcript_fst\<close> returns its output.
\<close>

theorem C5_assertion_holds:
  assumes "[] \<notin> set (normalise input)"
  shows "next_available_node_id
           (transcript_loop kw (end_node_id_of (normalise input)) (normalise input)) - 1
           = end_node_id_of (normalise input) - 1
         \<and> end_node_id_of (normalise input) - 1
           = sum_list (map (\<lambda>seq. max (int (length seq) - 1) 0) (normalise input))
         \<and> (\<exists>out. make_transcript_fst float_str kw input = Inr out)"
proof -
  have eq: "end_node_id_of (normalise input) = next_available_node_id
      (transcript_loop kw (end_node_id_of (normalise input)) (normalise input))"
    using assms by (simp add: assertion_passes_iff)
  have "end_node_id_of (normalise input) = spec_end_node_id (normalise input)"
    using assms by (rule end_node_id_of_spec)
  then have sum: "end_node_id_of (normalise input) - 1
           = sum_list (map (\<lambda>seq. max (int (length seq) - 1) 0) (normalise input))"
    by (simp add: spec_end_node_id_def)
  have "\<exists>out. make_transcript_fst float_str kw input = Inr out"
    using eq by (simp add: make_transcript_fst_def transcript_edges_def Let_def and_then_def)
  with eq sum show ?thesis by simp
qed

text \<open>Claim C5 on \<open>[["a", "b"], ["c"]]\<close>: one node id is allocated, the end node is 2.\<close>

theorem C5_assertion_holds_witness:
  "[] \<notin> set (normalise (Nested [[''a'', ''b''], [''c'']]))
   \<and> next_available_node_id (transcript_loop
       \<lparr>conservative = False, disfluency = False, disfluencies = []\<rparr>
       (end_node_id_of (normalise (Nested [[''a'', ''b''], [''c'']])))
       (normalise (Nested [[''a'', ''b''], [''c'']]))) - 1 = 1
   \<and> end_node_id_of (normalise (Nested [[''a'', ''b''], [''c'']])) - 1 = 1
   \<and> (\<exists>out. make_transcript_fst (\<lambda>w. ''0.0'')
       \<lparr>conservative = False, disfluency = False, disfluencies = []\<rparr>
       (Nested [[''a'', ''b''], [''c'']]) = Inr out)"
proof -
  have h: "[] \<notin> set (normalise (Nested [[''a'', ''b''], [''c'']]))" by simp
  from C5_assertion_holds [OF h,
      of "\<lparr>conservative = False, disfluency = False, disfluencies = []\<rparr>" "\<lambda>w. ''0.0''"]
  show ?thesis
    by (simp add: end_node_id_of_def)
qed

text \<open>
  Claim C4 at \<open>[["a"], []]\<close>: line 122 computes \<open>(1 - 1) + (0 - 1) + 1 = 0\<close>, the
  formula of the specification gives \<open>1 + max 0 0 + max (-1) 0 = 1\<close>.
\<close>

theorem C4_end_node_id_failing_input:
  "end_node_id_of (normalise (Nested [[''a''], []])) = 0
   \<and> spec_end_node_id [[''a''], []] = 1"
  by (simp add: end_node_id_of_def spec_end_node_id_def)

text \<open>
  Claim C3 at \<open>[["a"], []]\<close> for the transcript builder: with the empty sequence the
  call raises \<open>AssertionError\<close> (0 vs 1); without it the call returns the two edges
  of the word a and the final state 1.
\<close>

theorem C3_transcript_failing_input:
  "make_transcript_fst float_str \<lparr>conservative = False, disfluency = False, disfluencies = []\<rparr>
     (Nested [[''a''], []]) = Inl (AssertionError 0 1)
   \<and> make_transcript_fst float_str \<lparr>conservative = False, disfluency = False, disfluencies = []\<rparr>
     (Nested [[''a'']]) =
       Inr (''0 1 <unk> <unk> '' @ float_str 0 @ [CHR 0x0A] @ ''0 1 a a '' @ float_str 2
            @ [CHR 0x0A] @ ''1 0'' @ [CHR 0x0A])"
  by (simp add: make_transcript_fst_def and_then_def transcript_eval format_edge_def show_int_def
      show_nat.simps digit_def)

text \<open>
  Claim C8. On a flat list of words, each builder returns (or raises) exactly what it
  returns (or raises) on the list that has this sequence as its only element, whatever
  the flags.
\<close>

theorem C8_flat_is_one_element_set:
  "make_bigram_lm_fst percent_f kw (Flat ws) = make_bigram_lm_fst percent_f kw (Nested [ws])
   \<and> make_transcript_fst float_str kw (Flat ws) = make_transcript_fst float_str kw (Nested [ws])"
  by (simp add: make_bigram_lm_fst_def bigram_lines_def make_transcript_fst_def
      transcript_edges_def)

section \<open>Properties of \<open>make_bigram_language_model\<close>\<close>

text \<open>
  When the graph compiler raises \<open>e\<close> and the temporary input file can then be deleted
  (it still exists and is not locked), the call raises \<open>e\<close> itself and leaves a world
  without the temporary input file. This holds whether or not the deletion of the output
  file fails: that failure is swallowed (lines 221 to 224), and when the deletion
  succeeds the output file is gone as well.
\<close>

lemma failure_cleanup_when_deletable:
  assumes gen: "make_bigram_lm_fst percent_f kw kaldi_seq = Inr txt_fst"
    and fail: "mkgraph [proto_langdir, txt_name, hclg_filename]
                 (w\<lparr>files := (files w)(txt_name \<mapsto> txt_fst)\<rparr>) = (Some e, w2)"
    and names: "txt_name \<noteq> hclg_filename"
    and present: "files w2 txt_name \<noteq> None"
    and deletable: "txt_name \<notin> locked w2"
  shows "\<exists>w'. make_bigram_language_model percent_f mkgraph txt_name hclg_filename kw kaldi_seq
             proto_langdir w = (Inl e, w')
           \<and> files w' txt_name = None
           \<and> (files w2 hclg_filename = None \<or> hclg_filename \<in> locked w2
                \<or> files w' hclg_filename = None)"
  using assms
  by (auto simp: make_bigram_language_model_def os_unlink_def Let_def)

lemma empty_flat_text:
  "make_bigram_lm_fst (\<lambda>weight. ''-0.000000'')
     \<lparr>conservative = False, disfluency = False, disfluencies = []\<rparr> (Flat []) =
   Inr (''1    1    <unk>    <unk>    -0.000000'' @ [CHR 0x0A] @ ''1    0'' @ [CHR 0x0A])"
  by (simp add: make_bigram_lm_fst_def bigram_eval format_line_def show_nat.simps digit_def)

text \<open>
  In a world where the compiler fails and writes nothing, deleting the output file fails
  and is swallowed, the input file is deleted, and the failure of the compiler reaches
  the caller.
\<close>

lemma failure_cleanup_example:
  "make_bigram_lm_fst (\<lambda>weight. ''-0.000000'')
     \<lparr>conservative = False, disfluency = False, disfluencies = []\<rparr> (Flat []) =
     Inr (''1    1    <unk>    <unk>    -0.000000'' @ [CHR 0x0A] @ ''1    0'' @ [CHR 0x0A])
   \<and> ''/tmp/tmpfst'' \<noteq> ''/tmp/tmp_HCLG.fst''
   \<and> (\<exists>w'. make_bigram_language_model (\<lambda>weight. ''-0.000000'')
          (\<lambda>args w. (Some (CalledProcessError 1), w))
          ''/tmp/tmpfst'' ''/tmp/tmp_HCLG.fst''
          \<lparr>conservative = False, disfluency = False, disfluencies = []\<rparr> (Flat [])
          ''proto'' \<lparr>files = Map.empty, locked = {}\<rparr> = (Inl (CalledProcessError 1), w')
        \<and> files w' ''/tmp/tmpfst'' = None)"
proof -
  let ?txt = "''1    1    <unk>    <unk>    -0.000000'' @ [CHR 0x0A] @ ''1    0'' @ [CHR 0x0A]"
  let ?w = "\<lparr>files = Map.empty, locked = {}\<rparr>"
  let ?w2 = "?w\<lparr>files := (files ?w)(''/tmp/tmpfst'' \<mapsto> ?txt)\<rparr>"
  have fail: "(\<lambda>args w. (Some (CalledProcessError 1), w))
      [''proto'', ''/tmp/tmpfst'', ''/tmp/tmp_HCLG.fst''] ?w2 = (Some (CalledProcessError 1), ?w2)"
    by simp
  have names: "''/tmp/tmpfst'' \<noteq> ''/tmp/tmp_HCLG.fst''" by simp
  have present: "files ?w2 ''/tmp/tmpfst'' \<noteq> None" by simp
  have deletable: "''/tmp/tmpfst'' \<notin> locked ?w2" by simp
  from failure_cleanup_when_deletable [where mkgraph = "\<lambda>args w. (Some (CalledProcessError 1), w)"
      and w = ?w and ?w2.0 = ?w2 and e = "CalledProcessError 1" and proto_langdir = "''proto''",
      OF empty_flat_text fail names present deletable]
  show ?thesis
    using empty_flat_text names by blast
qed

text \<open>
  Claim C9 at two failing inputs. The compiler fails with \<open>CalledProcessError\<close>, and
  the temporary input file cannot be deleted afterwards: in the first world it is locked,
  in the second it is already gone. The \<open>os.unlink\<close> of the \<open>finally\<close> block
  (line 227) is not guarded as the one of lines 221 to 224 is: it raises, and its
  \<open>OSError\<close> reaches the caller in place of the compiler's failure. In the first world
  the file also stays.
\<close>

theorem C9_cleanup_failure_failing_input:
  "fst (make_bigram_language_model (\<lambda>weight. ''-0.000000'')
          (\<lambda>args w. (Some (CalledProcessError 1), w\<lparr>locked := {''/tmp/tmpfst''}\<rparr>))
          ''/tmp/tmpfst'' ''/tmp/tmp_HCLG.fst''
          \<lparr>conservative = False, disfluency = False, disfluencies = []\<rparr> (Flat [])
          ''proto'' \<lparr>files = Map.empty, locked = {}\<rparr>) = Inl (OSError ''/tmp/tmpfst'')
   \<and> files (snd (make_bigram_language_model (\<lambda>weight. ''-0.000000'')
          (\<lambda>args w. (Some (CalledProcessError 1), w\<lparr>locked := {''/tmp/tmpfst''}\<rparr>))
          ''/tmp/tmpfst'' ''/tmp/tmp_HCLG.fst''
          \<lparr>conservative = False, disfluency = False, disfluencies = []\<rparr> (Flat [])
          ''proto'' \<lparr>files = Map.empty, locked = {}\<rparr>)) ''/tmp/tmpfst'' \<noteq> None
   \<and> fst (make_bigram_language_model (\<lambda>weight. ''-0.000000'')
          (\<lambda>args w. (Some (CalledProcessError 1), w\<lparr>files := Map.empty\<rparr>))
          ''/tmp/tmpfst'' ''/tmp/tmp_HCLG.fst''
          \<lparr>conservative = False, disfluency = False, disfluencies = []\<rparr> (Flat [])
          ''proto'' \<lparr>files = Map.empty, locked = {}\<rparr>) = Inl (OSError ''/tmp/tmpfst'')"
  by (simp add: make_bigram_language_model_def empty_flat_text os_unlink_def)

end
